theory Spec2Isabelle
  imports Main
begin

section \<open>Strings of the JavaScript runtime\<close>

text \<open>
  A JavaScript string is a sequence of UTF-16 code units. A code unit is modelled by its
  number, so that the curly quotation marks the sanitizer looks for (U+201C, U+201D,
  U+2018, U+2019) are single elements, as they are for the regular expressions of the
  source (none of which carries the \<open>u\<close> flag). \<open>js\<close> writes an ASCII literal.
\<close>

type_synonym jchar = nat
type_synonym jstring = "jchar list"

definition js :: "string \<Rightarrow> jstring" where
  "js s = map of_char s"

definition DQUOTE :: jchar where "DQUOTE = 34"        \<comment> \<open>the double quote\<close>
definition SQUOTE :: jchar where "SQUOTE = 39"        \<comment> \<open>the apostrophe\<close>
definition STAR :: jchar where "STAR = 42"
definition COMMA :: jchar where "COMMA = 44"
definition SLASH :: jchar where "SLASH = 47"
definition COLON :: jchar where "COLON = 58"
definition LBRACKET :: jchar where "LBRACKET = 91"
definition BACKSLASH :: jchar where "BACKSLASH = 92"
definition RBRACKET :: jchar where "RBRACKET = 93"
definition BACKTICK :: jchar where "BACKTICK = 96"
definition LBRACE :: jchar where "LBRACE = 123"
definition RBRACE :: jchar where "RBRACE = 125"
definition LDQUOTE :: jchar where "LDQUOTE = 8220"    \<comment> \<open>U+201C, left curly double quote\<close>
definition RDQUOTE :: jchar where "RDQUOTE = 8221"    \<comment> \<open>U+201D, right curly double quote\<close>
definition LSQUOTE :: jchar where "LSQUOTE = 8216"    \<comment> \<open>U+2018, left curly single quote\<close>
definition RSQUOTE :: jchar where "RSQUOTE = 8217"    \<comment> \<open>U+2019, right curly single quote\<close>

text \<open>
  The characters that \<open>\s\<close> of a regular expression matches and that
  \<open>String.prototype.trim\<close> strips: the WhiteSpace and LineTerminator productions of
  ECMAScript (TAB, LF, VT, FF, CR, SP, NBSP, the Unicode space separators, LS, PS, BOM).
\<close>

definition is_space :: "jchar \<Rightarrow> bool" where
  "is_space c =
     (c = 9 \<or> c = 10 \<or> c = 11 \<or> c = 12 \<or> c = 13 \<or> c = 32 \<or> c = 160 \<or> c = 5760
      \<or> (8192 \<le> c \<and> c \<le> 8202) \<or> c = 8232 \<or> c = 8233 \<or> c = 8239 \<or> c = 8287
      \<or> c = 12288 \<or> c = 65279)"

text \<open>The line terminators, which \<open>.\<close> of a regular expression does not match.\<close>

definition is_line_terminator :: "jchar \<Rightarrow> bool" where
  "is_line_terminator c = (c = 10 \<or> c = 13 \<or> c = 8232 \<or> c = 8233)"

definition trim_start :: "jstring \<Rightarrow> jstring" where
  "trim_start s = dropWhile is_space s"

definition trim_end :: "jstring \<Rightarrow> jstring" where
  "trim_end s = rev (dropWhile is_space (rev s))"

definition trim :: "jstring \<Rightarrow> jstring" where
  "trim s = trim_end (trim_start s)"

fun starts_with :: "jstring \<Rightarrow> jstring \<Rightarrow> bool" where
  "starts_with [] s = True"
| "starts_with (p # ps) [] = False"
| "starts_with (p # ps) (c # cs) = (p = c \<and> starts_with ps cs)"

text \<open>\<open>s.indexOf(c)\<close> and \<open>s.lastIndexOf(c)\<close> for a single character; \<open>None\<close> is -1.\<close>

fun indexOf :: "jchar \<Rightarrow> jstring \<Rightarrow> nat option" where
  "indexOf c [] = None"
| "indexOf c (x # xs) = (if x = c then Some 0 else map_option Suc (indexOf c xs))"

fun lastIndexOf :: "jchar \<Rightarrow> jstring \<Rightarrow> nat option" where
  "lastIndexOf c [] = None"
| "lastIndexOf c (x # xs) =
     (case lastIndexOf c xs of
        Some i \<Rightarrow> Some (Suc i)
      | None \<Rightarrow> if x = c then Some 0 else None)"

text \<open>\<open>s.slice(a, b)\<close> for \<open>0 \<le> a\<close> and \<open>0 \<le> b\<close>.\<close>

definition slice :: "nat \<Rightarrow> nat \<Rightarrow> jstring \<Rightarrow> jstring" where
  "slice a b s = take (b - a) (drop a s)"

text \<open>
  The first occurrence of the pattern \<open>p\<close> in \<open>s\<close>: the text before it and the text
  after it.
\<close>

fun split_at :: "jstring \<Rightarrow> jstring \<Rightarrow> (jstring \<times> jstring) option" where
  "split_at p [] = (if p = [] then Some ([], []) else None)"
| "split_at p (c # cs) =
     (if starts_with p (c # cs) then Some ([], drop (length p) (c # cs))
      else (case split_at p cs of
              None \<Rightarrow> None
            | Some (before, after) \<Rightarrow> Some (c # before, after)))"

section \<open>JSON values and \<open>JSON.parse\<close>\<close>

text \<open>
  \<open>JSON.parse\<close> belongs to the runtime, not to the repository; it is modelled after the
  JSON grammar of ECMA-404, which ECMAScript prescribes for it. A number keeps its lexeme
  (the double it denotes is not computed), an object keeps its members in the order of the
  text, a repeated key included (a look-up takes the last). \<open>None\<close> is the
  \<open>SyntaxError\<close> that \<open>JSON.parse\<close> throws.
\<close>

datatype json =
    JNull
  | JBool bool
  | JNumber jstring
  | JString jstring
  | JArray "json list"
  | JObject "(jstring \<times> json) list"

datatype token =
    TLBrace | TRBrace | TLBracket | TRBracket | TColon | TComma
  | TString jstring | TNumber jstring | TTrue | TFalse | TNull

definition is_json_ws :: "jchar \<Rightarrow> bool" where
  "is_json_ws c = (c = 9 \<or> c = 10 \<or> c = 13 \<or> c = 32)"

definition is_digit :: "jchar \<Rightarrow> bool" where
  "is_digit c = (48 \<le> c \<and> c \<le> 57)"

definition hex_value :: "jchar \<Rightarrow> nat option" where
  "hex_value c =
     (if 48 \<le> c \<and> c \<le> 57 then Some (c - 48)
      else if 65 \<le> c \<and> c \<le> 70 then Some (c - 55)
      else if 97 \<le> c \<and> c \<le> 102 then Some (c - 87)
      else None)"

text \<open>The character after a backslash: \<open>" \ / b f n r t\<close>.\<close>

definition unescape :: "jchar \<Rightarrow> jchar option" where
  "unescape e =
     (if e = 34 then Some 34 else if e = 92 then Some 92 else if e = 47 then Some 47
      else if e = 98 then Some 8 else if e = 102 then Some 12 else if e = 110 then Some 10
      else if e = 114 then Some 13 else if e = 116 then Some 9 else None)"

text \<open>
  The rest of a string literal after its opening quote: the decoded string and the text
  after the closing quote. A control character, an unknown escape and a missing closing
  quote are syntax errors.
\<close>

fun lex_string :: "jstring \<Rightarrow> jstring \<Rightarrow> (jstring \<times> jstring) option" where
  "lex_string acc [] = None"
| "lex_string acc (c # cs) =
     (if c = 34 then Some (rev acc, cs)
      else if c = 92 then
        (case cs of
           [] \<Rightarrow> None
         | e # cs1 \<Rightarrow>
             if e = 117 then
               (case cs1 of
                  h1 # h2 # h3 # h4 # cs2 \<Rightarrow>
                    (case (hex_value h1, hex_value h2, hex_value h3, hex_value h4) of
                       (Some a, Some b, Some c, Some d) \<Rightarrow>
                         lex_string ((((a * 16 + b) * 16 + c) * 16 + d) # acc) cs2
                     | _ \<Rightarrow> None)
                | _ \<Rightarrow> None)
             else
               (case unescape e of
                  None \<Rightarrow> None
                | Some d \<Rightarrow> lex_string (d # acc) cs1))
      else if c < 32 then None
      else lex_string (c # acc) cs)"

text \<open>
  A number: \<open>-? (0 | [1-9][0-9]*) (. [0-9]+)? ([eE] [+-]? [0-9]+)?\<close>. Each part returns
  the text after it.
\<close>

definition is_num_char :: "jchar \<Rightarrow> bool" where
  "is_num_char c = (is_digit c \<or> c = 43 \<or> c = 45 \<or> c = 46 \<or> c = 69 \<or> c = 101)"

definition number_minus :: "jstring \<Rightarrow> jstring" where
  "number_minus s = (case s of [] \<Rightarrow> [] | c # cs \<Rightarrow> if c = 45 then cs else s)"

definition number_digits :: "jstring \<Rightarrow> jstring option" where
  "number_digits s =
     (case s of
        [] \<Rightarrow> None
      | d # ds \<Rightarrow> if is_digit d then Some (dropWhile is_digit ds) else None)"

definition number_int :: "jstring \<Rightarrow> jstring option" where
  "number_int s =
     (case s of
        [] \<Rightarrow> None
      | c # cs \<Rightarrow> if c = 48 then Some cs else number_digits s)"

definition number_frac :: "jstring \<Rightarrow> jstring option" where
  "number_frac s =
     (case s of
        [] \<Rightarrow> Some []
      | c # cs \<Rightarrow> if c = 46 then number_digits cs else Some s)"

definition number_exp :: "jstring \<Rightarrow> jstring option" where
  "number_exp s =
     (case s of
        [] \<Rightarrow> Some []
      | c # cs \<Rightarrow>
          if c = 69 \<or> c = 101 then
            (case cs of
               [] \<Rightarrow> None
             | g # gs \<Rightarrow> if g = 43 \<or> g = 45 then number_digits gs else number_digits cs)
          else Some s)"

definition valid_number :: "jstring \<Rightarrow> bool" where
  "valid_number s =
     (case number_int (number_minus s) of
        None \<Rightarrow> False
      | Some r1 \<Rightarrow>
          (case number_frac r1 of
             None \<Rightarrow> False
           | Some r2 \<Rightarrow> number_exp r2 = Some []))"

definition cons_token :: "token \<Rightarrow> token list option \<Rightarrow> token list option" where
  "cons_token t r = map_option (\<lambda>ts. t # ts) r"

lemma lex_string_shorter:
  "lex_string acc s = Some p \<Longrightarrow> length (snd p) < length s"
proof (induction s arbitrary: acc p rule: length_induct)
  case (1 s)
  show ?case
  proof (cases s)
    case Nil
    with 1 show ?thesis by simp
  next
    case (Cons c cs)
    have step: "length (snd p) < length t" if "lex_string a t = Some p" "length t < length s" for a t
      using 1 that by blast
    from "1.prems" Cons show ?thesis
      by (auto split: if_splits list.splits option.splits dest!: step)
  qed
qed

function lex :: "jstring \<Rightarrow> token list option" where
  "lex [] = Some []"
| "lex (c # cs) =
     (if is_json_ws c then lex cs
      else if c = 123 then cons_token TLBrace (lex cs)
      else if c = 125 then cons_token TRBrace (lex cs)
      else if c = 91 then cons_token TLBracket (lex cs)
      else if c = 93 then cons_token TRBracket (lex cs)
      else if c = 58 then cons_token TColon (lex cs)
      else if c = 44 then cons_token TComma (lex cs)
      else if c = 34 then
        (case lex_string [] cs of
           None \<Rightarrow> None
         | Some (str, rest) \<Rightarrow> cons_token (TString str) (lex rest))
      else if c = 45 \<or> is_digit c then
        (if valid_number (c # takeWhile is_num_char cs)
         then cons_token (TNumber (c # takeWhile is_num_char cs)) (lex (dropWhile is_num_char cs))
         else None)
      else if starts_with [116, 114, 117, 101] (c # cs) then cons_token TTrue (lex (drop 3 cs))
      else if starts_with [102, 97, 108, 115, 101] (c # cs) then cons_token TFalse (lex (drop 4 cs))
      else if starts_with [110, 117, 108, 108] (c # cs) then cons_token TNull (lex (drop 3 cs))
      else None)"
  by pat_completeness auto
termination
proof (relation "measure length")
  fix c cs x2 x y
  assume "lex_string [] cs = Some x2" and "(x, y) = x2"
  then show "(y, c # cs) \<in> measure length"
    using lex_string_shorter [of "[]" cs x2] by auto
qed (auto simp: length_dropWhile_le le_imp_less_Suc)

text \<open>
  The parser is a pushdown automaton over the tokens. A frame of the stack is an array or
  an object under construction (its members so far, last first; an object also holds the
  key whose value is being read).
\<close>

datatype frame =
    ArrayFrame "json list"
  | ObjectFrame "(jstring \<times> json) list" "jstring option"

datatype mode =
    ExpectValue        \<comment> \<open>at the start, after a colon, after a comma in an array\<close>
  | ExpectValueOrEnd   \<comment> \<open>after an opening bracket\<close>
  | ExpectKeyOrEnd     \<comment> \<open>after an opening brace\<close>
  | ExpectKey          \<comment> \<open>after a comma in an object\<close>
  | ExpectColon        \<comment> \<open>after a key\<close>
  | ExpectCommaOrEnd   \<comment> \<open>after a value inside an array or an object\<close>
  | Finished json      \<comment> \<open>after the value of the text\<close>

fun complete_value :: "json \<Rightarrow> frame list \<Rightarrow> (mode \<times> frame list) option" where
  "complete_value v [] = Some (Finished v, [])"
| "complete_value v (ArrayFrame acc # st) = Some (ExpectCommaOrEnd, ArrayFrame (v # acc) # st)"
| "complete_value v (ObjectFrame acc (Some k) # st) =
     Some (ExpectCommaOrEnd, ObjectFrame ((k, v) # acc) None # st)"
| "complete_value v (ObjectFrame acc None # st) = None"

fun begin_value :: "token \<Rightarrow> frame list \<Rightarrow> (mode \<times> frame list) option" where
  "begin_value TLBracket st = Some (ExpectValueOrEnd, ArrayFrame [] # st)"
| "begin_value TLBrace st = Some (ExpectKeyOrEnd, ObjectFrame [] None # st)"
| "begin_value (TString s) st = complete_value (JString s) st"
| "begin_value (TNumber n) st = complete_value (JNumber n) st"
| "begin_value TTrue st = complete_value (JBool True) st"
| "begin_value TFalse st = complete_value (JBool False) st"
| "begin_value TNull st = complete_value JNull st"
| "begin_value _ st = None"

fun parse_step :: "mode \<Rightarrow> frame list \<Rightarrow> token \<Rightarrow> (mode \<times> frame list) option" where
  "parse_step ExpectValue st t = begin_value t st"
| "parse_step ExpectValueOrEnd (ArrayFrame acc # st) TRBracket = complete_value (JArray (rev acc)) st"
| "parse_step ExpectValueOrEnd st t = begin_value t st"
| "parse_step ExpectKeyOrEnd (ObjectFrame acc k # st) TRBrace = complete_value (JObject (rev acc)) st"
| "parse_step ExpectKeyOrEnd (ObjectFrame acc k # st) (TString s) =
     Some (ExpectColon, ObjectFrame acc (Some s) # st)"
| "parse_step ExpectKey (ObjectFrame acc k # st) (TString s) =
     Some (ExpectColon, ObjectFrame acc (Some s) # st)"
| "parse_step ExpectColon st TColon = Some (ExpectValue, st)"
| "parse_step ExpectCommaOrEnd (ArrayFrame acc # st) TComma = Some (ExpectValue, ArrayFrame acc # st)"
| "parse_step ExpectCommaOrEnd (ArrayFrame acc # st) TRBracket = complete_value (JArray (rev acc)) st"
| "parse_step ExpectCommaOrEnd (ObjectFrame acc k # st) TComma = Some (ExpectKey, ObjectFrame acc k # st)"
| "parse_step ExpectCommaOrEnd (ObjectFrame acc k # st) TRBrace = complete_value (JObject (rev acc)) st"
| "parse_step _ _ _ = None"

fun parse_tokens :: "mode \<Rightarrow> frame list \<Rightarrow> token list \<Rightarrow> json option" where
  "parse_tokens (Finished v) st [] = Some v"
| "parse_tokens m st [] = None"
| "parse_tokens m st (t # ts) =
     (case parse_step m st t of
        None \<Rightarrow> None
      | Some (m', st') \<Rightarrow> parse_tokens m' st' ts)"

definition JSON_parse :: "jstring \<Rightarrow> json option" where
  "JSON_parse text =
     (case lex text of
        None \<Rightarrow> None
      | Some ts \<Rightarrow> parse_tokens ExpectValue [] ts)"

section \<open>Extracting a candidate: \<open>extractJsonFromText\<close>\<close>

text \<open>
  The regular expressions of the source are matched by the runtime's backtracking
  matcher. Each one is modelled by the function that computes its leftmost match.

  \<open>/```json\s*([\s\S]*?)\s*```/i\<close> and \<open>/```\s*([\s\S]*?)\s*```/\<close>: a match starts at the
  leftmost opening marker. The greedy \<open>\s*\<close> after it takes the whole run of white
  space (a shorter run only moves white space into the group, and never finds a closing
  marker that the whole run misses); the lazy group then ends at the first closing marker,
  less the white space before it, which the second \<open>\s*\<close> takes. When no closing marker
  follows the leftmost opening one, none follows a later one either, and there is no match.
  With the flag \<open>i\<close> the letters of \<open>json\<close> match in either case; no character above
  127 is canonicalised to an ASCII letter.
\<close>

definition lower_ascii :: "jchar \<Rightarrow> jchar" where
  "lower_ascii c = (if 65 \<le> c \<and> c \<le> 90 then c + 32 else c)"

fun starts_with_ci :: "jstring \<Rightarrow> jstring \<Rightarrow> bool" where
  "starts_with_ci [] s = True"
| "starts_with_ci (p # ps) [] = False"
| "starts_with_ci (p # ps) (c # cs) = (lower_ascii p = lower_ascii c \<and> starts_with_ci ps cs)"

definition FENCE :: jstring where
  "FENCE = [BACKTICK, BACKTICK, BACKTICK]"

text \<open>The text after the first occurrence of \<open>```json\<close>, in any case of the letters.\<close>

fun after_json_fence :: "jstring \<Rightarrow> jstring option" where
  "after_json_fence [] = None"
| "after_json_fence (c # cs) =
     (if starts_with_ci (FENCE @ js ''json'') (c # cs) then Some (drop 6 cs)
      else after_json_fence cs)"

text \<open>Group 1, given the text after the opening marker: \<open>\s*([\s\S]*?)\s*```\<close>.\<close>

definition fence_interior :: "jstring \<Rightarrow> jstring option" where
  "fence_interior after =
     (case split_at FENCE (trim_start after) of
        None \<Rightarrow> None
      | Some (body, rest) \<Rightarrow> Some (trim_end body))"

text \<open>\<open>fencedJson\<close> and \<open>fencedAny\<close>: \<open>None\<close> is no match, \<open>Some g\<close> a match with group 1 \<open>g\<close>.\<close>

definition fencedJson :: "jstring \<Rightarrow> jstring option" where
  "fencedJson s =
     (case after_json_fence s of
        None \<Rightarrow> None
      | Some after \<Rightarrow> fence_interior after)"

definition fencedAny :: "jstring \<Rightarrow> jstring option" where
  "fencedAny s =
     (case split_at FENCE s of
        None \<Rightarrow> None
      | Some (before, after) \<Rightarrow> fence_interior after)"

text \<open>
  One round of the loop of the brace scan: the state is \<open>depth\<close>, \<open>inString\<close> and
  \<open>lastChar\<close> (\<open>None\<close> is \<open>null\<close>).
\<close>

type_synonym scan_state = "int \<times> bool \<times> jchar option"

definition scan_step :: "scan_state \<Rightarrow> jchar \<Rightarrow> scan_state" where
  "scan_step st ch =
     (case st of (depth, inString, lastChar) \<Rightarrow>
        let inString' = (if ch = DQUOTE \<and> lastChar \<noteq> Some BACKSLASH then \<not> inString else inString);
            depth' = (if \<not> inString'
                      then (if ch = LBRACE then depth + 1
                            else if ch = RBRACE then depth - 1
                            else depth)
                      else depth)
        in (depth', inString', Some ch))"

text \<open>
  The loop, over the characters from \<open>firstBrace\<close> on; \<open>n\<close> is \<open>i - firstBrace\<close>. The result
  is the \<open>n\<close> at which the loop returns, \<open>None\<close> when it runs to the end of the text.
\<close>

fun scan_loop :: "jstring \<Rightarrow> nat \<Rightarrow> scan_state \<Rightarrow> nat option" where
  "scan_loop [] n st = None"
| "scan_loop (ch # rest) n st =
     (let st' = scan_step st ch
      in if fst st' = 0 \<and> n > 0 then Some n else scan_loop rest (Suc n) st')"

definition brace_scan :: "jstring \<Rightarrow> jstring option" where
  "brace_scan s =
     (case indexOf LBRACE s of
        None \<Rightarrow> None
      | Some firstBrace \<Rightarrow>
          (case scan_loop (drop firstBrace s) 0 (0, False, None) of
             None \<Rightarrow> None
           | Some n \<Rightarrow> Some (trim (slice firstBrace (firstBrace + n + 1) s))))"

text \<open>\<open>m && m[1]\<close>: the match exists and its group 1 is not the empty string.\<close>

definition truthy_group :: "jstring option \<Rightarrow> bool" where
  "truthy_group m = (case m of None \<Rightarrow> False | Some g \<Rightarrow> g \<noteq> [])"

definition extractJsonFromText :: "jstring \<Rightarrow> jstring option" where
  "extractJsonFromText s =
     (if s = [] then None
      else if truthy_group (fencedJson s) then map_option trim (fencedJson s)
      else if truthy_group (fencedAny s) then map_option trim (fencedAny s)
      else brace_scan s)"

section \<open>Repairing a candidate: \<open>sanitizeJsonString\<close>\<close>

text \<open>
  \<open>replace(/```\s*json/i, '```')\<close>: without the flag \<open>g\<close>, the leftmost match only.
\<close>

fun replace_fence_label :: "jstring \<Rightarrow> jstring" where
  "replace_fence_label [] = []"
| "replace_fence_label (c # cs) =
     (if starts_with FENCE (c # cs) \<and> starts_with_ci (js ''json'') (trim_start (drop 2 cs))
      then FENCE @ drop 4 (trim_start (drop 2 cs))
      else c # replace_fence_label cs)"

text \<open>\<open>replace(/```/g, '')\<close>.\<close>

fun remove_fences :: "jstring \<Rightarrow> jstring" where
  "remove_fences [] = []"
| "remove_fences (c # cs) =
     (if starts_with FENCE (c # cs) then remove_fences (drop 2 cs)
      else c # remove_fences cs)"

text \<open>\<open>replace(/[\<dots>]/g, '"')\<close> on the curly double quotes, then \<open>replace(/[\<dots>]/g, "'")\<close> on the curly single ones.\<close>

definition replace_curly_double :: "jstring \<Rightarrow> jstring" where
  "replace_curly_double s = map (\<lambda>c. if c = LDQUOTE \<or> c = RDQUOTE then DQUOTE else c) s"

definition replace_curly_single :: "jstring \<Rightarrow> jstring" where
  "replace_curly_single s = map (\<lambda>c. if c = LSQUOTE \<or> c = RSQUOTE then SQUOTE else c) s"

lemma split_at_length:
  "split_at p s = Some (before, after) \<Longrightarrow> length after \<le> length s"
  by (induction s arbitrary: before) (auto split: if_splits option.splits)

text \<open>
  \<open>replace(/\/\*[\s\S]*?\*\//g, '')\<close>: a comment runs from \<open>/*\<close> to the first \<open>*/\<close>
  after it; an opening with no closing is left in place.
\<close>

function strip_block_comments :: "jstring \<Rightarrow> jstring" where
  "strip_block_comments [] = []"
| "strip_block_comments (c # cs) =
     (if starts_with [SLASH, STAR] (c # cs) then
        (case split_at [STAR, SLASH] (drop 1 cs) of
           None \<Rightarrow> c # strip_block_comments cs
         | Some (body, after) \<Rightarrow> strip_block_comments after)
      else c # strip_block_comments cs)"
  by pat_completeness auto
termination
proof (relation "measure length")
  fix c cs x2 x y
  assume "split_at [STAR, SLASH] (drop 1 cs) = Some x2" and "(x, y) = x2"
  then have "length y \<le> length (drop 1 cs)"
    using split_at_length [of "[STAR, SLASH]" "drop 1 cs" x y] by simp
  then show "(y, c # cs) \<in> measure length" by simp
qed auto

text \<open>
  \<open>replace(/(^|[^:\\])\/\/.*/g, '$1')\<close>: \<open>^\<close> holds at index 0 only (there is no flag
  \<open>m\<close>), \<open>[^:\\]\<close> is any one character but the colon and the backslash (a line
  terminator too), and \<open>.*\<close> runs to the end of the line. The character of the group is
  kept. \<open>strip_line_comments_from\<close> is the replacement from an index after 0.
\<close>

definition rest_of_line :: "jstring \<Rightarrow> jstring" where
  "rest_of_line s = dropWhile (\<lambda>c. \<not> is_line_terminator c) s"

function strip_line_comments_from :: "jstring \<Rightarrow> jstring" where
  "strip_line_comments_from [] = []"
| "strip_line_comments_from (c # cs) =
     (if c \<noteq> COLON \<and> c \<noteq> BACKSLASH \<and> starts_with [SLASH, SLASH] cs
      then c # strip_line_comments_from (rest_of_line (drop 2 cs))
      else c # strip_line_comments_from cs)"
  by pat_completeness auto
termination
  by (relation "measure length")
     (auto simp: rest_of_line_def intro: le_less_trans [OF length_dropWhile_le])

definition strip_line_comments :: "jstring \<Rightarrow> jstring" where
  "strip_line_comments s =
     (if starts_with [SLASH, SLASH] s
      then strip_line_comments_from (rest_of_line (drop 2 s))
      else strip_line_comments_from s)"

text \<open>
  \<open>replace(/,\s*([}\]])/g, '$1')\<close>: a comma, the run of white space after it and a closing
  brace or bracket are replaced by the brace or bracket.
\<close>

function remove_trailing_commas :: "jstring \<Rightarrow> jstring" where
  "remove_trailing_commas [] = []"
| "remove_trailing_commas (c # cs) =
     (if c = COMMA then
        (case trim_start cs of
           [] \<Rightarrow> c # remove_trailing_commas cs
         | b # rest \<Rightarrow>
             if b = RBRACE \<or> b = RBRACKET then b # remove_trailing_commas rest
             else c # remove_trailing_commas cs)
      else c # remove_trailing_commas cs)"
  by pat_completeness auto
termination
proof (relation "measure length")
  fix c cs b rest
  assume "trim_start cs = b # rest"
  then have "length (b # rest) \<le> length cs"
    using length_dropWhile_le [of is_space cs] by (simp add: trim_start_def)
  then show "(rest, c # cs) \<in> measure length" by simp
qed auto

definition sanitizeJsonString :: "jstring \<Rightarrow> jstring" where
  "sanitizeJsonString s =
     (if s = [] then s
      else trim (remove_trailing_commas (strip_line_comments (strip_block_comments
             (replace_curly_single (replace_curly_double
               (remove_fences (replace_fence_label (trim s)))))))))"

section \<open>The parse cascade of the two handlers\<close>

text \<open>
  What a handler does is recorded as a list of events, in the order of the calls, beside
  the value it returns. A diagnostic log entry is recorded by its occurrence only (its text
  holds a time stamp).
\<close>

datatype event =
    ProviderCalled jstring    \<comment> \<open>\<open>model.generateContent(prompt)\<close>\<close>
  | ParseTried jstring        \<comment> \<open>\<open>JSON.parse(x)\<close>\<close>
  | SerializeTried json       \<comment> \<open>\<open>JSON.stringify(v)\<close>, \<open>res.json(v)\<close> on a parsed value\<close>
  | ExtractTried jstring      \<comment> \<open>\<open>extractJsonFromText(x)\<close>\<close>
  | SanitizeTried jstring     \<comment> \<open>\<open>sanitizeJsonString(x)\<close>\<close>
  | LogAppended               \<comment> \<open>\<open>fs.appendFileSync\<close> returned\<close>
  | LogWarned                 \<comment> \<open>a call of \<open>fs\<close> threw; the \<open>catch\<close> warns on the console\<close>

text \<open>The fallback object \<open>{ itinerary: text, places: [] }\<close>.\<close>

definition fallback :: "jstring \<Rightarrow> json" where
  "fallback text = JObject [(js ''itinerary'', JString text), (js ''places'', JArray [])]"

definition emit :: "event list \<Rightarrow> json \<times> event list \<Rightarrow> json \<times> event list" where
  "emit es r = (fst r, es @ snd r)"

text \<open>
  Each \<open>try\<close> of the cascade encloses the parse and the sending of the parsed value:
  \<open>return { statusCode: 200, body: JSON.stringify(JSON.parse(x)) }\<close> in the function,
  \<open>const parsed = JSON.parse(x); return res.json(parsed)\<close> in the server. The
  serialization belongs to the runtime and throws on a value that its stack or its
  longest string cannot hold; \<open>serializes v\<close> tells whether the \<open>try\<close> runs to its
  \<open>return\<close> once \<open>x\<close> has parsed to \<open>v\<close>. A throw of either call is caught by the same
  \<open>catch\<close>: the attempt succeeds when both return.
\<close>

type_synonym serializer = "json \<Rightarrow> bool"

definition attempt :: "serializer \<Rightarrow> jstring \<Rightarrow> json option" where
  "attempt serializes x =
     (case JSON_parse x of
        None \<Rightarrow> None
      | Some v \<Rightarrow> if serializes v then Some v else None)"

definition attempt_events :: "jstring \<Rightarrow> event list" where
  "attempt_events x =
     ParseTried x # (case JSON_parse x of None \<Rightarrow> [] | Some v \<Rightarrow> [SerializeTried v])"

text \<open>
  \<open>sanitized.slice(first, last + 1)\<close> under the guard
  \<open>first !== -1 && last !== -1 && last > first\<close>.
\<close>

definition outer_braces :: "jstring \<Rightarrow> jstring option" where
  "outer_braces sanitized =
     (case indexOf LBRACE sanitized of
        None \<Rightarrow> None
      | Some first_i \<Rightarrow>
          (case lastIndexOf RBRACE sanitized of
             None \<Rightarrow> None
           | Some last_i \<Rightarrow>
               if last_i > first_i then Some (slice first_i (last_i + 1) sanitized) else None))"

text \<open>
  The cascade of \<open>netlify/functions/generate.js\<close>. \<open>on_fail\<close> and \<open>on_fallback\<close> are
  the events of the two places where \<open>server.js\<close> writes its log; the function writes
  none. The fallback object, a string and an empty array, is returned from the \<open>catch\<close>
  of the first \<open>try\<close>; its serialization is taken to return.
\<close>

definition cascade ::
  "serializer \<Rightarrow> event list \<Rightarrow> event list \<Rightarrow> jstring \<Rightarrow> json \<times> event list" where
  "cascade serializes on_fail on_fallback text =
     emit (attempt_events text)
       (case attempt serializes text of
          Some parsed \<Rightarrow> (parsed, [])
        | None \<Rightarrow>
            emit [ExtractTried text]
              (case extractJsonFromText text of
                 None \<Rightarrow> (fallback text, on_fallback)
               | Some maybe \<Rightarrow>
                   if maybe = [] then (fallback text, on_fallback)
                   else
                     emit (SanitizeTried maybe # attempt_events (sanitizeJsonString maybe))
                       (case attempt serializes (sanitizeJsonString maybe) of
                          Some parsed2 \<Rightarrow> (parsed2, [])
                        | None \<Rightarrow>
                            (case outer_braces (sanitizeJsonString maybe) of
                               None \<Rightarrow> (fallback text, on_fail @ on_fallback)
                             | Some candidate \<Rightarrow>
                                 emit (attempt_events candidate)
                                   (case attempt serializes candidate of
                                      Some parsed3 \<Rightarrow> (parsed3, [])
                                    | None \<Rightarrow> (fallback text, on_fail @ on_fallback))))))"

definition netlify_cascade :: "serializer \<Rightarrow> jstring \<Rightarrow> json \<times> event list" where
  "netlify_cascade serializes text = cascade serializes [] [] text"

text \<open>
  The cascade of \<open>server.js\<close>: each of its two log writes is inside a \<open>try\<close> of its own;
  \<open>log_ok\<close> tells whether the calls of \<open>fs\<close> return or throw.
\<close>

definition log_entry :: "bool \<Rightarrow> event list" where
  "log_entry log_ok = (if log_ok then [LogAppended] else [LogWarned])"

definition server_cascade :: "serializer \<Rightarrow> bool \<Rightarrow> jstring \<Rightarrow> json \<times> event list" where
  "server_cascade serializes log_ok text =
     cascade serializes (log_entry log_ok) (log_entry log_ok) text"

text \<open>The value the pipeline returns for a raw text.\<close>

definition recover :: "serializer \<Rightarrow> jstring \<Rightarrow> json" where
  "recover serializes text = fst (netlify_cascade serializes text)"

text \<open>The texts on which the cascade calls \<open>JSON.parse\<close>, in the order of the calls.\<close>

fun parse_attempts :: "event list \<Rightarrow> jstring list" where
  "parse_attempts [] = []"
| "parse_attempts (ParseTried x # es) = x # parse_attempts es"
| "parse_attempts (e # es) = parse_attempts es"

section \<open>The request handlers\<close>

text \<open>
  The provider client is a function from the prompt to the text of the completion, \<open>None\<close>
  when the call or \<open>response.text()\<close> throws. \<open>genAI\<close> is \<open>None\<close> for \<open>null\<close>. The
  prompt is the template literal of the source applied to the fields of the body; its text
  depends on the runtime's conversion of the fields to strings and is a parameter
  (\<open>prompt_of\<close>).
\<close>

type_synonym provider = "jstring \<Rightarrow> jstring option"

text \<open>
  The initialisation of \<open>genAI\<close> at load time: \<open>key\<close> is \<open>process.env.GEMINI_API_KEY\<close>
  (\<open>None\<close> when unset), \<open>construct\<close> the constructor of the client (\<open>None\<close> when it
  throws).
\<close>

definition init_genAI :: "jstring option \<Rightarrow> (jstring \<Rightarrow> provider option) \<Rightarrow> provider option" where
  "init_genAI key construct =
     (case key of
        None \<Rightarrow> None
      | Some k \<Rightarrow> if k = [] then None else construct k)"

record response =
  statusCode :: nat
  payload :: json

definition error_body :: "jstring \<Rightarrow> json" where
  "error_body msg = JObject [(js ''error'', JString msg)]"

text \<open>
  \<open>exports.handler\<close> of \<open>netlify/functions/generate.js\<close>. Destructuring \<open>null\<close> throws
  a \<open>TypeError\<close>, which the \<open>catch\<close> of the handler turns into the status 500.
\<close>

record netlify_event =
  httpMethod :: jstring
  event_body :: "jstring option"

definition netlify_handler ::
  "provider option \<Rightarrow> (json \<Rightarrow> jstring) \<Rightarrow> serializer \<Rightarrow> netlify_event
     \<Rightarrow> response \<times> event list" where
  "netlify_handler genAI prompt_of serializes ev =
     (if httpMethod ev \<noteq> js ''POST'' then
        (\<lparr>statusCode = 405, payload = error_body (js ''Method not allowed'')\<rparr>, [])
      else
        (case genAI of
           None \<Rightarrow>
             (\<lparr>statusCode = 503,
               payload = error_body (js ''AI service not configured. Set GEMINI_API_KEY.'')\<rparr>, [])
         | Some generateContent \<Rightarrow>
             (let raw = (case event_body ev of None \<Rightarrow> js ''{}'' | Some b \<Rightarrow> if b = [] then js ''{}'' else b);
                  failed = \<lparr>statusCode = 500, payload = error_body (js ''Internal server error'')\<rparr>
              in case JSON_parse raw of
                   None \<Rightarrow> (failed, [ParseTried raw])
                 | Some body \<Rightarrow>
                     if body = JNull then (failed, [ParseTried raw])
                     else
                       (case generateContent (prompt_of body) of
                          None \<Rightarrow> (failed, [ParseTried raw, ProviderCalled (prompt_of body)])
                        | Some text \<Rightarrow>
                            (\<lparr>statusCode = 200, payload = fst (netlify_cascade serializes text)\<rparr>,
                             [ParseTried raw, ProviderCalled (prompt_of body)]
                               @ snd (netlify_cascade serializes text))))))"

text \<open>
  The handler of \<open>app.post('/generate')\<close> in \<open>server.js\<close>; the router calls it for POST
  requests only. \<open>req_body\<close> is \<open>req.body\<close> as the body parser left it (\<open>None\<close> for
  \<open>undefined\<close>). The destructuring of line 42 comes before the test of \<open>genAI\<close>, and
  throws on \<open>undefined\<close> and \<open>null\<close>.
\<close>

definition server_handler ::
  "provider option \<Rightarrow> (json \<Rightarrow> jstring) \<Rightarrow> serializer \<Rightarrow> bool \<Rightarrow> json option
     \<Rightarrow> response \<times> event list" where
  "server_handler genAI prompt_of serializes log_ok req_body =
     (let failed = \<lparr>statusCode = 500,
                     payload = error_body (js ''Failed to generate itinerary. Please try again.'')\<rparr>
      in case req_body of
           None \<Rightarrow> (failed, [])
         | Some body \<Rightarrow>
             if body = JNull then (failed, [])
             else
               (case genAI of
                  None \<Rightarrow>
                    (\<lparr>statusCode = 503,
                      payload = error_body
                        (js ''AI service not configured. Please set GEMINI_API_KEY on the server.'')\<rparr>,
                     [])
                | Some generateContent \<Rightarrow>
                    (case generateContent (prompt_of body) of
                       None \<Rightarrow> (failed, [ProviderCalled (prompt_of body)])
                     | Some text \<Rightarrow>
                         (\<lparr>statusCode = 200,
                           payload = fst (server_cascade serializes log_ok text)\<rparr>,
                          ProviderCalled (prompt_of body)
                            # snd (server_cascade serializes log_ok text)))))"

section \<open>The shape of a result\<close>

text \<open>
  \<open>v[k]\<close> on a parsed value: the last member of an object with the key \<open>k\<close>;
  \<open>undefined\<close> (\<open>None\<close>) on an object without the key and on every other JSON value.
\<close>

definition field :: "jstring \<Rightarrow> json \<Rightarrow> json option" where
  "field k v = (case v of JObject ms \<Rightarrow> map_of (rev ms) k | _ \<Rightarrow> None)"

definition is_string :: "json \<Rightarrow> bool" where
  "is_string v = (case v of JString s \<Rightarrow> True | _ \<Rightarrow> False)"

definition is_array :: "json \<Rightarrow> bool" where
  "is_array v = (case v of JArray xs \<Rightarrow> True | _ \<Rightarrow> False)"

text \<open>The invariant of ItineraryResult: \<open>itinerary\<close> is a string and \<open>places\<close> is an array.\<close>

definition itinerary_result :: "json \<Rightarrow> bool" where
  "itinerary_result v =
     ((case field (js ''itinerary'') v of None \<Rightarrow> False | Some i \<Rightarrow> is_string i)
      \<and> (case field (js ''places'') v of None \<Rightarrow> False | Some p \<Rightarrow> is_array p))"

section \<open>The cascade as an ordered list of strategies\<close>

text \<open>
  The spec describes the cascade as strategies tried in order, the first success being the
  result. \<open>first_success\<close> is that scheme; the definitions after it follow the words of
  the spec and are compared with the functions of the source.
\<close>

fun first_success :: "('a \<Rightarrow> 'b option) list \<Rightarrow> 'a \<Rightarrow> 'b option" where
  "first_success [] x = None"
| "first_success (f # fs) x = (case f x of Some y \<Rightarrow> Some y | None \<Rightarrow> first_success fs x)"

text \<open>
  The candidate as the spec states it: the interior of a fence labelled json if one
  matches, else the interior of any fence if one matches, else the brace scan.
\<close>

definition stated_json_fence :: "jstring \<Rightarrow> jstring option" where
  "stated_json_fence s = map_option trim (fencedJson s)"

definition stated_any_fence :: "jstring \<Rightarrow> jstring option" where
  "stated_any_fence s = map_option trim (fencedAny s)"

definition stated_candidate :: "jstring \<Rightarrow> jstring option" where
  "stated_candidate s = first_success [stated_json_fence, stated_any_fence, brace_scan] s"

text \<open>The same with a fence counting as matched only when its interior is not empty.\<close>

definition json_fence_candidate :: "jstring \<Rightarrow> jstring option" where
  "json_fence_candidate s =
     (case fencedJson s of None \<Rightarrow> None | Some g \<Rightarrow> if g = [] then None else Some (trim g))"

definition any_fence_candidate :: "jstring \<Rightarrow> jstring option" where
  "any_fence_candidate s =
     (case fencedAny s of None \<Rightarrow> None | Some g \<Rightarrow> if g = [] then None else Some (trim g))"

definition ordered_candidate :: "jstring \<Rightarrow> jstring option" where
  "ordered_candidate s = first_success [json_fence_candidate, any_fence_candidate, brace_scan] s"

text \<open>
  The three parse strategies: the raw text; the sanitized candidate; the sanitized
  candidate from its first \<open>{\<close> to its last \<open>}\<close>. A strategy succeeds when the text
  parses and the parsed value is sent.
\<close>

definition direct_parse :: "serializer \<Rightarrow> jstring \<Rightarrow> json option" where
  "direct_parse serializes text = attempt serializes text"

definition sanitized_reparse :: "serializer \<Rightarrow> jstring \<Rightarrow> json option" where
  "sanitized_reparse serializes text =
     (case ordered_candidate text of
        None \<Rightarrow> None
      | Some c \<Rightarrow> attempt serializes (sanitizeJsonString c))"

definition outer_braces_retry :: "serializer \<Rightarrow> jstring \<Rightarrow> json option" where
  "outer_braces_retry serializes text =
     (case ordered_candidate text of
        None \<Rightarrow> None
      | Some c \<Rightarrow>
          (case outer_braces (sanitizeJsonString c) of
             None \<Rightarrow> None
           | Some k \<Rightarrow> attempt serializes k))"

definition ordered_recover :: "serializer \<Rightarrow> jstring \<Rightarrow> json" where
  "ordered_recover serializes text =
     (case first_success
             [direct_parse serializes, sanitized_reparse serializes, outer_braces_retry serializes]
             text of
        None \<Rightarrow> fallback text
      | Some v \<Rightarrow> v)"

text \<open>
  A runtime that serializes every value, and one whose serialization throws on a value
  with arrays and objects nested deeper than \<open>n\<close>.
\<close>

definition every_value :: serializer where
  "every_value v = True"

fun nesting :: "json \<Rightarrow> nat" where
  "nesting (JArray xs) = Suc (fold max (map nesting xs) 0)"
| "nesting (JObject ms) = Suc (fold max (map (\<lambda>m. nesting (snd m)) ms) 0)"
| "nesting v = 0"

definition stack_limit :: "nat \<Rightarrow> serializer" where
  "stack_limit n v = (nesting v \<le> n)"

text \<open>The normalization of the quotation marks, as the spec states it.\<close>

definition straighten_quote :: "jchar \<Rightarrow> jchar" where
  "straighten_quote c =
     (if c = LDQUOTE \<or> c = RDQUOTE then DQUOTE
      else if c = LSQUOTE \<or> c = RSQUOTE then SQUOTE
      else c)"

text \<open>
  The text between the outer braces of an object as the brace scan reads it. In a string a
  backslash and the character after it are one escape; the scan tests the one character
  before a quote, so the text is read as JSON reads it unless an escaped backslash stands
  right before a quote; such a text is left out (\<open>next_not_quote\<close>). \<open>balanced d\<close>
  holds of a text that starts \<open>d\<close> braces deep inside the object and ends at depth 0,
  outside a string, the braces outside strings matching and the depth never below 0.
  \<open>inString\<close> tells whether the text starts inside a string.
\<close>

definition next_not_quote :: "jstring \<Rightarrow> bool" where
  "next_not_quote s = (case s of [] \<Rightarrow> True | x # xs \<Rightarrow> x \<noteq> DQUOTE)"

fun balanced :: "nat \<Rightarrow> bool \<Rightarrow> jstring \<Rightarrow> bool" where
  "balanced d inString [] = (d = 0 \<and> \<not> inString)"
| "balanced d inString (c # cs) =
     (if inString then
        (if c = DQUOTE then balanced d False cs
         else if c = BACKSLASH then
           (case cs of
              [] \<Rightarrow> False
            | e # cs' \<Rightarrow> (if e = BACKSLASH then next_not_quote cs' else True) \<and> balanced d True cs')
         else balanced d True cs)
      else
        (if c = DQUOTE then balanced d True cs
         else if c = BACKSLASH then next_not_quote cs \<and> balanced d False cs
         else if c = LBRACE then balanced (Suc d) False cs
         else if c = RBRACE then 0 < d \<and> balanced (d - 1) False cs
         else balanced d False cs))"

text \<open>The same for an object that has braces inside its strings only.\<close>

fun quoted_braces_only :: "bool \<Rightarrow> jstring \<Rightarrow> bool" where
  "quoted_braces_only inString [] = (\<not> inString)"
| "quoted_braces_only inString (c # cs) =
     (if inString then
        (if c = DQUOTE then quoted_braces_only False cs
         else if c = BACKSLASH then
           (case cs of
              [] \<Rightarrow> False
            | e # cs' \<Rightarrow>
                (if e = BACKSLASH then next_not_quote cs' else True) \<and> quoted_braces_only True cs')
         else quoted_braces_only True cs)
      else
        (if c = DQUOTE then quoted_braces_only True cs
         else if c = BACKSLASH then next_not_quote cs \<and> quoted_braces_only False cs
         else c \<noteq> LBRACE \<and> c \<noteq> RBRACE \<and> quoted_braces_only False cs))"

text \<open>A text without a curly quotation mark.\<close>

definition no_curly :: "jstring \<Rightarrow> bool" where
  "no_curly s = (LDQUOTE \<notin> set s \<and> RDQUOTE \<notin> set s \<and> LSQUOTE \<notin> set s \<and> RSQUOTE \<notin> set s)"

text \<open>
  For the line comments: a character that \<open>.\<close> matches; a text that is empty or starts
  with a line terminator; and a text in which \<open>//\<close> follows a character other than the
  colon and the backslash.
\<close>

definition not_terminator :: "jchar \<Rightarrow> bool" where
  "not_terminator c = (\<not> is_line_terminator c)"

definition at_line_end :: "jstring \<Rightarrow> bool" where
  "at_line_end s = (case s of [] \<Rightarrow> True | x # xs \<Rightarrow> is_line_terminator x)"

fun unprotected_comment :: "jstring \<Rightarrow> bool" where
  "unprotected_comment [] = False"
| "unprotected_comment (c # cs) =
     ((c \<noteq> COLON \<and> c \<noteq> BACKSLASH \<and> starts_with [SLASH, SLASH] cs) \<or> unprotected_comment cs)"

text \<open>A text in which some \<open>/*\<close> has a \<open>*/\<close> after it.\<close>

fun block_comment :: "jstring \<Rightarrow> bool" where
  "block_comment [] = False"
| "block_comment (c # cs) =
     ((starts_with [SLASH, STAR] (c # cs) \<and> split_at [STAR, SLASH] (drop 1 cs) \<noteq> None)
      \<or> block_comment cs)"

section \<open>Texts on which the claims are tried\<close>

text \<open>A completion cut off in the middle of the object.\<close>

definition truncated_text :: jstring where
  \<open>truncated_text = js ''{"itinerary":"Day 1","pla''\<close>

text \<open>A completion that is an array in an array.\<close>

definition nested_text :: jstring where
  "nested_text = js ''[[1]]''"

definition nested_value :: json where
  "nested_value = JArray [JArray [JNumber (js ''1'')]]"

text \<open>The completion of the spec's example: prose, then the object in a fence labelled json.\<close>

definition day1_text :: jstring where
  \<open>day1_text = js ''{"itinerary":"Day 1","places":[]}''\<close>

definition day1_value :: json where
  "day1_value = JObject [(js ''itinerary'', JString (js ''Day 1'')), (js ''places'', JArray [])]"

definition fenced_text :: jstring where
  \<open>fenced_text = js ''Here is your plan:\<newline>```json\<newline>'' @ day1_text @ js ''\<newline>```\<newline>''\<close>

text \<open>A completion that is a JSON object without the key \<open>itinerary\<close>, and one that is an array.\<close>

definition no_itinerary_text :: jstring where
  \<open>no_itinerary_text = js ''{"places":[]}''\<close>

definition array_text :: jstring where
  \<open>array_text = js ''[]''\<close>

text \<open>A GET request to the serverless function.\<close>

definition get_event :: netlify_event where
  "get_event = \<lparr>httpMethod = js ''GET'', event_body = None\<rparr>"

definition post_event :: netlify_event where
  \<open>post_event = \<lparr>httpMethod = js ''POST'', event_body = Some (js ''{"destination":"Rome"}'')\<rparr>\<close>

text \<open>The two error responses for an unconfigured provider.\<close>

definition netlify_unavailable :: response where
  "netlify_unavailable =
     \<lparr>statusCode = 503,
      payload = error_body (js ''AI service not configured. Set GEMINI_API_KEY.'')\<rparr>"

definition server_unavailable :: response where
  "server_unavailable =
     \<lparr>statusCode = 503,
      payload = error_body
        (js ''AI service not configured. Please set GEMINI_API_KEY on the server.'')\<rparr>"

text \<open>A completion without a brace: prose in a fence.\<close>

definition no_brace_text :: jstring where
  \<open>no_brace_text = js ''Plan:\<newline>```\<newline>Day 1: Rome, Day 2: Ostia\<newline>```''\<close>

text \<open>A completion with an empty fence before the object.\<close>

definition empty_fence_text :: jstring where
  \<open>empty_fence_text = js ''``````{"a":1}''\<close>

definition a1_text :: jstring where
  \<open>a1_text = js ''{"a":1}''\<close>

definition a1_value :: json where
  "a1_value = JObject [(js ''a'', JNumber (js ''1''))]"

text \<open>The spec's example with the label of the fence in capitals.\<close>

definition fenced_upper_text :: jstring where
  \<open>fenced_upper_text = js ''```JSON\<newline>'' @ day1_text @ js ''\<newline>```''\<close>

text \<open>
  An object whose string is \<open>C:\<close> and a backslash, written as an escaped backslash, and
  a completion with prose before it.
\<close>

definition backslash_object_text :: jstring where
  \<open>backslash_object_text = js ''{"itinerary":"C:'' @ [BACKSLASH, BACKSLASH] @ js ''","places":[]}''\<close>

definition backslash_value :: json where
  "backslash_value =
     JObject [(js ''itinerary'', JString (js ''C:'' @ [BACKSLASH])), (js ''places'', JArray [])]"

definition escaped_backslash_text :: jstring where
  "escaped_backslash_text = js ''Result: '' @ backslash_object_text"

text \<open>The spec's object with the itinerary X: plain, with a trailing comma, with curly quotes.\<close>

definition x_text :: jstring where
  \<open>x_text = js ''{"itinerary":"X","places":[]}''\<close>

definition x_value :: json where
  "x_value = JObject [(js ''itinerary'', JString (js ''X'')), (js ''places'', JArray [])]"

definition trailing_comma_text :: jstring where
  \<open>trailing_comma_text = js ''{"itinerary":"X","places":[],}''\<close>

definition curly_double_text :: jstring where
  "curly_double_text =
     [LBRACE, LDQUOTE] @ js ''itinerary'' @ [RDQUOTE, COLON, LDQUOTE] @ js ''X''
       @ [RDQUOTE, COMMA, LDQUOTE] @ js ''places'' @ [RDQUOTE] @ js '':[]}''"

definition curly_single_text :: jstring where
  "curly_single_text =
     [LBRACE, LSQUOTE] @ js ''itinerary'' @ [RSQUOTE, COLON, LSQUOTE] @ js ''X''
       @ [RSQUOTE, COMMA, LSQUOTE] @ js ''places'' @ [RSQUOTE] @ js '':[]}''"

definition apostrophe_text :: jstring where
  "apostrophe_text =
     [LBRACE, SQUOTE] @ js ''itinerary'' @ [SQUOTE, COLON, SQUOTE] @ js ''X''
       @ [SQUOTE, COMMA, SQUOTE] @ js ''places'' @ [SQUOTE] @ js '':[]}''"

text \<open>
  The spec's object with braces in a string; and an object whose string holds a comma
  before its closing brace, alone and after prose.
\<close>

definition old_town_body :: jstring where
  \<open>old_town_body = js ''"itinerary":"Visit the { Old Town }","places":[]''\<close>

definition old_town_text :: jstring where
  "old_town_text = LBRACE # old_town_body @ [RBRACE]"

definition old_town_value :: json where
  "old_town_value =
     JObject [(js ''itinerary'', JString (js ''Visit the { Old Town }'')), (js ''places'', JArray [])]"

definition comma_brace_body :: jstring where
  \<open>comma_brace_body = js ''"itinerary":"Visit { Old Town, }","places":[]''\<close>

definition comma_brace_text :: jstring where
  "comma_brace_text = LBRACE # comma_brace_body @ [RBRACE]"

definition comma_brace_value :: json where
  "comma_brace_value =
     JObject [(js ''itinerary'', JString (js ''Visit { Old Town, }'')), (js ''places'', JArray [])]"

definition comma_brace_repaired :: json where
  "comma_brace_repaired =
     JObject [(js ''itinerary'', JString (js ''Visit { Old Town}'')), (js ''places'', JArray [])]"

definition prose_comma_brace_text :: jstring where
  "prose_comma_brace_text = js ''Plan: '' @ comma_brace_text"

text \<open>An object whose string is a protocol-relative URL, and texts with comments in strings.\<close>

definition url_text :: jstring where
  \<open>url_text = js ''{"image":"//cdn.example.com/a.png"}''\<close>

definition url_value :: json where
  "url_value = JObject [(js ''image'', JString (js ''//cdn.example.com/a.png''))]"

definition url_sanitized :: jstring where
  \<open>url_sanitized = js ''{"image":"''\<close>

definition star_text :: jstring where
  \<open>star_text = js ''{"tip":"rated /* 5 stars */ by locals"}''\<close>

definition slashes_text :: jstring where
  \<open>slashes_text = js ''{"tip":"walk // or take the tram",\<newline>"places":[]}''\<close>

text \<open>
  Completions with a fence labelled json that is empty, and with a fence labelled js.
\<close>

definition empty_json_fence_text :: jstring where
  \<open>empty_json_fence_text = js ''```json\<newline>```\<newline>{"a":1}''\<close>

definition js_fence_text :: jstring where
  \<open>js_fence_text = js ''```js\<newline>[1]\<newline>```''\<close>

text \<open>An object with an escape and braces in its string, after prose.\<close>

definition escape_body :: jstring where
  \<open>escape_body = js ''"itinerary":"Day 1'' @ [BACKSLASH] @ js ''n{ Old Town }","places":[]''\<close>

definition escape_text :: jstring where
  "escape_text = LBRACE # escape_body @ [RBRACE]"

definition escape_value :: json where
  "escape_value =
     JObject [(js ''itinerary'', JString (js ''Day 1\<newline>{ Old Town }'')), (js ''places'', JArray [])]"

definition prose_escape_text :: jstring where
  "prose_escape_text = js ''Plan: '' @ escape_text"

text \<open>The object with the URL and a comma before its closing brace.\<close>

definition url_comma_text :: jstring where
  \<open>url_comma_text = js ''{"image":"//cdn.example.com/a.png",}''\<close>

text \<open>
  The body of the spec's object with a trailing comma; and an object in curly double
  quotes whose string holds a closing brace, with the candidate that the scan cuts out of
  it, the sanitized candidate, and the text of the object in straight quotes.
\<close>

definition trailing_comma_body :: jstring where
  \<open>trailing_comma_body = js ''"itinerary":"X","places":[],''\<close>

definition curly_double_body :: jstring where
  "curly_double_body =
     [LDQUOTE] @ js ''itinerary'' @ [RDQUOTE, COLON, LDQUOTE] @ js ''X''
       @ [RDQUOTE, COMMA, LDQUOTE] @ js ''places'' @ [RDQUOTE] @ js '':[]''"

definition curly_brace_text :: jstring where
  "curly_brace_text =
     [LBRACE, LDQUOTE] @ js ''itinerary'' @ [RDQUOTE, COLON, LDQUOTE] @ js ''Visit }''
       @ [RDQUOTE, COMMA, LDQUOTE] @ js ''places'' @ [RDQUOTE] @ js '':[]}''"

definition curly_brace_candidate :: jstring where
  "curly_brace_candidate =
     [LBRACE, LDQUOTE] @ js ''itinerary'' @ [RDQUOTE, COLON, LDQUOTE] @ js ''Visit }''"

definition curly_brace_sanitized :: jstring where
  \<open>curly_brace_sanitized = js ''{"itinerary":"Visit }''\<close>

definition straight_brace_text :: jstring where
  \<open>straight_brace_text = js ''{"itinerary":"Visit }","places":[]}''\<close>

definition straight_brace_value :: json where
  "straight_brace_value =
     JObject [(js ''itinerary'', JString (js ''Visit }'')), (js ''places'', JArray [])]"

definition curly_single_body :: jstring where
  "curly_single_body =
     [LSQUOTE] @ js ''itinerary'' @ [RSQUOTE, COLON, LSQUOTE] @ js ''X''
       @ [RSQUOTE, COMMA, LSQUOTE] @ js ''places'' @ [RSQUOTE] @ js '':[]''"

section \<open>Rules for evaluating the definitions on a given text\<close>

lemmas char_defs = DQUOTE_def SQUOTE_def STAR_def COMMA_def SLASH_def COLON_def LBRACKET_def
  BACKSLASH_def RBRACKET_def BACKTICK_def LBRACE_def RBRACE_def LDQUOTE_def RDQUOTE_def
  LSQUOTE_def RSQUOTE_def FENCE_def

lemmas extract_defs = js_def char_defs is_space_def is_line_terminator_def trim_start_def
  trim_end_def trim_def slice_def lower_ascii_def fence_interior_def fencedJson_def
  fencedAny_def scan_step_def brace_scan_def truthy_group_def extractJsonFromText_def Let_def

lemmas sanitize_defs = js_def char_defs is_space_def is_line_terminator_def trim_start_def
  trim_end_def trim_def lower_ascii_def replace_curly_double_def replace_curly_single_def
  rest_of_line_def strip_line_comments_def sanitizeJsonString_def

lemmas parse_defs = js_def JSON_parse_def is_json_ws_def is_digit_def hex_value_def
  unescape_def is_num_char_def number_minus_def number_digits_def number_int_def
  number_frac_def number_exp_def valid_number_def cons_token_def

lemmas cascade_defs = recover_def netlify_cascade_def server_cascade_def log_entry_def
  cascade_def emit_def attempt_def attempt_events_def every_value_def

section \<open>The characters of a candidate come from the raw text\<close>

lemma indexOf_None_iff: "indexOf c s = None \<longleftrightarrow> c \<notin> set s"
  by (induction s) auto

lemma set_trim_start: "set (trim_start s) \<subseteq> set s"
  by (auto simp: trim_start_def dest: set_dropWhileD)

lemma set_trim_end: "set (trim_end s) \<subseteq> set s"
  by (auto simp: trim_end_def dest: set_dropWhileD)

lemma set_trim: "set (trim s) \<subseteq> set s"
  using set_trim_start set_trim_end by (fastforce simp: trim_def)

lemma set_rest_of_line: "set (rest_of_line s) \<subseteq> set s"
  by (auto simp: rest_of_line_def dest: set_dropWhileD)

lemma split_at_sets:
  "split_at p s = Some (before, after) \<Longrightarrow> set before \<subseteq> set s \<and> set after \<subseteq> set s"
proof (induction s arbitrary: before)
  case Nil
  then show ?case by (simp split: if_splits)
next
  case (Cons c cs)
  show ?case
  proof (cases "starts_with p (c # cs)")
    case True
    with Cons.prems have "before = []" "after = drop (length p) (c # cs)" by auto
    then show ?thesis using set_drop_subset [of "length p" "c # cs"] by auto
  next
    case False
    with Cons.prems obtain b where "split_at p cs = Some (b, after)" "before = c # b"
      by (auto split: option.splits)
    with Cons.IH [of b] show ?thesis by auto
  qed
qed

lemma after_json_fence_set: "after_json_fence s = Some a \<Longrightarrow> set a \<subseteq> set s"
proof (induction s)
  case Nil
  then show ?case by simp
next
  case (Cons c cs)
  then show ?case
    using set_drop_subset [of 6 cs] by (auto split: if_splits)
qed

lemma fence_interior_set: "fence_interior a = Some g \<Longrightarrow> set g \<subseteq> set a"
proof -
  assume "fence_interior a = Some g"
  then obtain body rest where sp: "split_at FENCE (trim_start a) = Some (body, rest)" and g: "g = trim_end body"
    by (auto simp: fence_interior_def split: option.splits)
  from split_at_sets [OF sp] have "set body \<subseteq> set (trim_start a)" by simp
  with set_trim_start [of a] set_trim_end [of body] g show ?thesis by blast
qed

lemma fencedJson_set: "fencedJson s = Some g \<Longrightarrow> set g \<subseteq> set s"
  using after_json_fence_set fence_interior_set
  by (fastforce simp: fencedJson_def split: option.splits)

lemma fencedAny_set: "fencedAny s = Some g \<Longrightarrow> set g \<subseteq> set s"
proof -
  assume "fencedAny s = Some g"
  then obtain b a where sp: "split_at FENCE s = Some (b, a)" and fi: "fence_interior a = Some g"
    by (auto simp: fencedAny_def split: option.splits)
  from split_at_sets [OF sp] fence_interior_set [OF fi] show ?thesis by blast
qed

lemma brace_scan_set: "brace_scan s = Some c \<Longrightarrow> set c \<subseteq> set s"
proof -
  assume "brace_scan s = Some c"
  then obtain i n where "c = trim (slice i (i + n + 1) s)"
    by (auto simp: brace_scan_def split: option.splits)
  moreover have "set (slice i (i + n + 1) s) \<subseteq> set s"
    unfolding slice_def using set_take_subset set_drop_subset by fast
  ultimately show ?thesis using set_trim by blast
qed

lemma extract_set: "extractJsonFromText s = Some c \<Longrightarrow> set c \<subseteq> set s"
proof -
  assume ex: "extractJsonFromText s = Some c"
  consider (j) g where "fencedJson s = Some g" "c = trim g"
    | (a) g where "fencedAny s = Some g" "c = trim g"
    | (b) "brace_scan s = Some c"
    using ex by (auto simp: extractJsonFromText_def split: if_splits)
  then show ?thesis
  proof cases
    case j
    then show ?thesis using fencedJson_set set_trim by blast
  next
    case a
    then show ?thesis using fencedAny_set set_trim by blast
  next
    case b
    then show ?thesis by (rule brace_scan_set)
  qed
qed

lemma starts_with_FENCE_head: "starts_with FENCE (c # cs) \<Longrightarrow> c = BACKTICK"
  by (simp add: FENCE_def)

lemma set_replace_fence_label: "set (replace_fence_label s) \<subseteq> set s"
proof (induction s rule: replace_fence_label.induct)
  case 1
  then show ?case by simp
next
  case (2 c cs)
  show ?case
  proof (cases "starts_with FENCE (c # cs) \<and> starts_with_ci (js ''json'') (trim_start (drop 2 cs))")
    case True
    then have "c = BACKTICK" using starts_with_FENCE_head by blast
    moreover have "set (drop 4 (trim_start (drop 2 cs))) \<subseteq> set cs"
      using set_drop_subset [of 4 "trim_start (drop 2 cs)"] set_trim_start [of "drop 2 cs"]
        set_drop_subset [of 2 cs] by blast
    ultimately show ?thesis using True by (auto simp: FENCE_def)
  next
    case False
    with 2 show ?thesis by auto
  qed
qed

lemma set_remove_fences: "set (remove_fences s) \<subseteq> set s"
proof (induction s rule: remove_fences.induct)
  case 1
  then show ?case by simp
next
  case (2 c cs)
  then show ?case
    using set_drop_subset [of 2 cs] by (cases "starts_with FENCE (c # cs)") auto
qed

lemma set_strip_block_comments: "set (strip_block_comments s) \<subseteq> set s"
proof (induction s rule: strip_block_comments.induct)
  case 1
  then show ?case by simp
next
  case (2 c cs)
  show ?case
  proof (cases "starts_with [SLASH, STAR] (c # cs)")
    case True
    show ?thesis
    proof (cases "split_at [STAR, SLASH] (drop 1 cs)")
      case None
      with True 2 show ?thesis by auto
    next
      case (Some ba)
      obtain body after where ba: "ba = (body, after)" by (cases ba)
      from split_at_sets Some ba have "set after \<subseteq> set (drop 1 cs)" by blast
      then have "set after \<subseteq> set cs" using set_drop_subset [of 1 cs] by blast
      moreover have "set (strip_block_comments after) \<subseteq> set after"
        using 2(2) [OF True Some] ba by simp
      ultimately show ?thesis using True Some ba by auto
    qed
  next
    case False
    with 2 show ?thesis by auto
  qed
qed

lemma set_strip_line_comments_from: "set (strip_line_comments_from s) \<subseteq> set s"
proof (induction s rule: strip_line_comments_from.induct)
  case 1
  then show ?case by simp
next
  case (2 c cs)
  have "set (rest_of_line (drop 2 cs)) \<subseteq> set cs"
    using set_rest_of_line [of "drop 2 cs"] set_drop_subset [of 2 cs] by blast
  with 2 show ?case
    by (cases "c \<noteq> COLON \<and> c \<noteq> BACKSLASH \<and> starts_with [SLASH, SLASH] cs") auto
qed

lemma set_strip_line_comments: "set (strip_line_comments s) \<subseteq> set s"
proof -
  have "set (rest_of_line (drop 2 s)) \<subseteq> set s"
    using set_rest_of_line [of "drop 2 s"] set_drop_subset [of 2 s] by blast
  then show ?thesis
    using set_strip_line_comments_from [of s] set_strip_line_comments_from [of "rest_of_line (drop 2 s)"]
    by (auto simp: strip_line_comments_def)
qed

lemma set_remove_trailing_commas: "set (remove_trailing_commas s) \<subseteq> set s"
proof (induction s rule: remove_trailing_commas.induct)
  case 1
  then show ?case by simp
next
  case (2 c cs)
  show ?case
  proof (cases "c = COMMA")
    case True
    show ?thesis
    proof (cases "trim_start cs")
      case Nil
      with True 2 show ?thesis by auto
    next
      case (Cons b rest)
      have sub: "set (b # rest) \<subseteq> set cs" using set_trim_start [of cs] Cons by simp
      show ?thesis
      proof (cases "b = RBRACE \<or> b = RBRACKET")
        case br: True
        have "set (remove_trailing_commas rest) \<subseteq> set rest"
          using 2(2) [OF True Cons br] .
        with sub True Cons br show ?thesis by auto
      next
        case br: False
        have "set (remove_trailing_commas cs) \<subseteq> set cs"
          using 2(3) [OF True Cons br] .
        with True Cons br show ?thesis by auto
      qed
    qed
  next
    case False
    with 2 show ?thesis by auto
  qed
qed

lemma set_replace_curly:
  "set (replace_curly_single (replace_curly_double s)) \<subseteq> set s \<union> {DQUOTE, SQUOTE}"
  by (auto simp: replace_curly_single_def replace_curly_double_def)

lemma set_sanitize: "set (sanitizeJsonString s) \<subseteq> set s \<union> {DQUOTE, SQUOTE}"
proof (cases "s = []")
  case True
  then show ?thesis by (simp add: sanitizeJsonString_def)
next
  case False
  let ?a = "remove_fences (replace_fence_label (trim s))"
  let ?b = "replace_curly_single (replace_curly_double ?a)"
  have a: "set ?a \<subseteq> set s"
    using set_remove_fences [of "replace_fence_label (trim s)"] set_replace_fence_label [of "trim s"]
      set_trim [of s] by blast
  have b: "set ?b \<subseteq> set s \<union> {DQUOTE, SQUOTE}"
    using set_replace_curly [of ?a] a by blast
  have "set (trim (remove_trailing_commas (strip_line_comments (strip_block_comments ?b)))) \<subseteq> set ?b"
    using set_trim [of "remove_trailing_commas (strip_line_comments (strip_block_comments ?b))"]
      set_remove_trailing_commas [of "strip_line_comments (strip_block_comments ?b)"]
      set_strip_line_comments [of "strip_block_comments ?b"]
      set_strip_block_comments [of ?b] by blast
  with b False show ?thesis by (auto simp: sanitizeJsonString_def)
qed

lemma outer_braces_no_brace: "LBRACE \<notin> set s \<Longrightarrow> outer_braces s = None"
  using indexOf_None_iff [of LBRACE s] by (simp add: outer_braces_def)

section \<open>Trimming, and what extraction returns\<close>

lemma dropWhile_snoc: "\<not> P c \<Longrightarrow> dropWhile P (xs @ [c]) = dropWhile P xs @ [c]"
  by (induction xs) auto

lemma trim_end_Cons: "\<not> is_space c \<Longrightarrow> trim_end (c # cs) = c # trim_end cs"
  by (simp add: trim_end_def dropWhile_snoc)

lemma trim_start_head: "trim_start s = c # cs \<Longrightarrow> \<not> is_space c"
  unfolding trim_start_def using hd_dropWhile [of is_space s] by (metis list.sel(1) list.distinct(1))

lemma split_at_before_head:
  "split_at p (c # cs) = Some (b # bs, after) \<Longrightarrow> b = c"
  by (auto split: if_splits option.splits)

lemma trim_nonspace_head: "\<not> is_space c \<Longrightarrow> trim (c # cs) \<noteq> []"
  by (simp add: trim_def trim_start_def trim_end_Cons)

lemma fence_interior_head:
  assumes "fence_interior a = Some (c # cs)"
  shows "\<not> is_space c"
proof -
  from assms obtain body rest where sp: "split_at FENCE (trim_start a) = Some (body, rest)"
    and g: "trim_end body = c # cs"
    by (auto simp: fence_interior_def split: option.splits)
  from g obtain b bs where body: "body = b # bs"
    by (cases body) (auto simp: trim_end_def)
  from sp body obtain t ts where ts: "trim_start a = t # ts"
    by (cases "trim_start a") (auto split: if_splits)
  with sp body have "b = t" using split_at_before_head by metis
  with ts have nb: "\<not> is_space b" using trim_start_head by blast
  from trim_end_Cons [OF nb, of bs] g body have "c = b" by simp
  with nb show ?thesis by simp
qed

lemma fence_interior_trim: "fence_interior a = Some g \<Longrightarrow> g \<noteq> [] \<Longrightarrow> trim g \<noteq> []"
  using fence_interior_head trim_nonspace_head by (cases g) auto

lemma indexOf_Some_nth: "indexOf c s = Some i \<Longrightarrow> i < length s \<and> s ! i = c"
  by (induction s arbitrary: i) (auto split: if_splits)

lemma scan_loop_bound: "scan_loop s n st = Some m \<Longrightarrow> m < n + length s"
  by (induction s n st rule: scan_loop.induct) (auto simp: Let_def split: if_splits)

lemma brace_scan_nonempty: "brace_scan s \<noteq> Some []"
proof
  assume a: "brace_scan s = Some []"
  then obtain i n where i: "indexOf LBRACE s = Some i"
    and t: "trim (slice i (i + n + 1) s) = []"
    by (auto simp: brace_scan_def split: option.splits)
  from indexOf_Some_nth [OF i] have "i < length s" "s ! i = LBRACE" by auto
  then have "drop i s = LBRACE # drop (Suc i) s"
    by (metis Cons_nth_drop_Suc)
  then have "slice i (i + n + 1) s = LBRACE # take n (drop (Suc i) s)"
    by (simp add: slice_def)
  with t trim_nonspace_head [of LBRACE] show False
    by (simp add: is_space_def LBRACE_def)
qed

lemma extract_nonempty: "extractJsonFromText s \<noteq> Some []"
proof
  assume a: "extractJsonFromText s = Some []"
  then consider (j) g where "fencedJson s = Some g" "g \<noteq> []" "trim g = []"
    | (a) g where "fencedAny s = Some g" "g \<noteq> []" "trim g = []"
    | (b) "brace_scan s = Some []"
    by (auto simp: extractJsonFromText_def truthy_group_def split: if_splits option.splits)
  then show False
  proof cases
    case j
    then show ?thesis
      using fence_interior_trim by (auto simp: fencedJson_def split: option.splits)
  next
    case a
    then show ?thesis
      using fence_interior_trim by (auto simp: fencedAny_def split: option.splits)
  next
    case b
    then show ?thesis using brace_scan_nonempty by blast
  qed
qed

section \<open>The replacements of the sanitizer in a context\<close>

lemma trim_start_append:
  "trim_start (xs @ ys) = (if list_all is_space xs then trim_start ys else trim_start xs @ ys)"
  by (simp add: trim_start_def dropWhile_append list_all_iff)

lemma trim_start_spaces_then: "list_all is_space ws \<Longrightarrow> \<not> is_space b \<Longrightarrow> trim_start (ws @ b # post) = b # post"
  by (simp add: trim_start_append) (simp add: trim_start_def)

lemma trim_start_all_space: "list_all is_space xs \<Longrightarrow> trim_start xs = []"
  by (simp add: trim_start_def list_all_iff)

lemma trim_start_shorter: "trim_start xs = x # rest \<Longrightarrow> length rest < length xs"
  using length_dropWhile_le [of is_space xs] by (simp add: trim_start_def)

lemma remove_trailing_commas_at:
  assumes ws: "list_all is_space ws" and b: "b = RBRACE \<or> b = RBRACKET"
  shows "remove_trailing_commas (pre @ COMMA # ws @ b # post)
         = remove_trailing_commas pre @ b # remove_trailing_commas post"
proof (induction pre rule: length_induct)
  case (1 pre)
  have nb: "\<not> is_space b" using b by (auto simp: is_space_def char_defs)
  have nc: "\<not> is_space COMMA" by (simp add: is_space_def char_defs)
  have cb: "COMMA \<noteq> RBRACE" "COMMA \<noteq> RBRACKET" by (simp_all add: char_defs)
  let ?tail = "COMMA # ws @ b # post"
  show ?case
  proof (cases pre)
    case Nil
    then show ?thesis
      using trim_start_spaces_then [OF ws nb, of post] b by auto
  next
    case (Cons c pre')
    have ih: "remove_trailing_commas (p @ ?tail) = remove_trailing_commas p @ b # remove_trailing_commas post"
      if "length p < length pre" for p
      using 1 that by blast
    show ?thesis
    proof (cases "c = COMMA")
      case False
      then show ?thesis using Cons ih [of pre'] by simp
    next
      case True
      show ?thesis
      proof (cases "list_all is_space pre'")
        case sp: True
        then have "trim_start (pre' @ ?tail) = ?tail"
          using nc by (simp add: trim_start_append) (simp add: trim_start_def)
        moreover have "trim_start pre' = []" using sp by (rule trim_start_all_space)
        ultimately show ?thesis
          using True Cons ih [of pre'] cb by simp
      next
        case nsp: False
        then obtain x rest where tr: "trim_start pre' = x # rest"
          by (cases "trim_start pre'") (auto simp: trim_start_def list_all_iff)
        then have app: "trim_start (pre' @ ?tail) = x # rest @ ?tail"
          using nsp by (simp add: trim_start_append)
        have len: "length rest < length pre" using trim_start_shorter [OF tr] Cons by simp
        show ?thesis
          using True Cons tr app ih [of pre'] ih [OF len] by simp
      qed
    qed
  qed
qed

lemma no_backtick_starts_with_FENCE: "BACKTICK \<notin> set s \<Longrightarrow> \<not> starts_with FENCE s"
  by (cases s) (auto simp: FENCE_def)

lemma replace_fence_label_id: "BACKTICK \<notin> set s \<Longrightarrow> replace_fence_label s = s"
  by (induction s) (auto simp: FENCE_def)

lemma remove_fences_id: "BACKTICK \<notin> set s \<Longrightarrow> remove_fences s = s"
  by (induction s) (auto simp: FENCE_def)

lemma strip_block_comments_id: "SLASH \<notin> set s \<Longrightarrow> strip_block_comments s = s"
  by (induction s) auto

lemma no_slash_starts_with: "SLASH \<notin> set s \<Longrightarrow> \<not> starts_with [SLASH, SLASH] s"
  by (cases s) auto

lemma strip_line_comments_from_id: "SLASH \<notin> set s \<Longrightarrow> strip_line_comments_from s = s"
  by (induction s) (auto simp: no_slash_starts_with)

lemma strip_line_comments_id: "SLASH \<notin> set s \<Longrightarrow> strip_line_comments s = s"
  by (simp add: strip_line_comments_def no_slash_starts_with strip_line_comments_from_id)

lemma replace_curly_straighten:
  "replace_curly_single (replace_curly_double s) = map straighten_quote s"
  by (auto simp: replace_curly_single_def replace_curly_double_def straighten_quote_def char_defs)

lemma sanitize_quotes_only:
  assumes "BACKTICK \<notin> set s" "SLASH \<notin> set s"
  shows "sanitizeJsonString s = trim (remove_trailing_commas (map straighten_quote (trim s)))"
proof (cases "s = []")
  case True
  then show ?thesis by (simp add: sanitizeJsonString_def trim_def trim_start_def trim_end_def)
next
  case False
  have t: "BACKTICK \<notin> set (trim s)" "SLASH \<notin> set (trim s)"
    using assms set_trim [of s] by auto
  have "SLASH \<notin> set (map straighten_quote (trim s))"
    using t(2) by (auto simp: straighten_quote_def char_defs split: if_splits)
  then show ?thesis
    using False t(1)
    by (simp add: sanitizeJsonString_def replace_fence_label_id remove_fences_id
        replace_curly_straighten strip_block_comments_id strip_line_comments_id)
qed

lemma trim_start_before:
  "\<not> is_space c \<Longrightarrow> trim_start (pre @ c # r) = trim_start pre @ c # r"
  by (simp add: trim_start_def dropWhile_append)

lemma trim_end_after:
  "\<not> is_space c \<Longrightarrow> trim_end (x @ c # post) = x @ c # trim_end post"
proof -
  assume c: "\<not> is_space c"
  have "dropWhile is_space (rev post @ c # rev x) = dropWhile is_space (rev post) @ c # rev x"
    using c by (simp add: dropWhile_append)
  then show ?thesis by (simp add: trim_end_def)
qed

lemma straighten_space: "is_space c \<Longrightarrow> straighten_quote c = c"
  by (auto simp: is_space_def straighten_quote_def char_defs)

lemma map_straighten_spaces: "list_all is_space ws \<Longrightarrow> map straighten_quote ws = ws"
  by (induction ws) (auto simp: straighten_space)

lemma sanitize_trailing_comma:
  assumes ws: "list_all is_space ws" and b: "b = RBRACE \<or> b = RBRACKET"
    and bt: "BACKTICK \<notin> set (pre @ post)" and sl: "SLASH \<notin> set (pre @ post)"
  shows "sanitizeJsonString (pre @ COMMA # ws @ b # post)
         = trim (remove_trailing_commas (map straighten_quote (trim_start pre))
                 @ b # remove_trailing_commas (map straighten_quote (trim_end post)))"
proof -
  let ?s = "pre @ COMMA # ws @ b # post"
  have nb: "\<not> is_space b" using b by (auto simp: is_space_def char_defs)
  have nc: "\<not> is_space COMMA" by (simp add: is_space_def char_defs)
  have sqc: "straighten_quote COMMA = COMMA" by (simp add: straighten_quote_def char_defs)
  have sqb: "straighten_quote b = b" using b by (auto simp: straighten_quote_def char_defs)
  have wsb: "BACKTICK \<notin> set ws" "SLASH \<notin> set ws"
    using ws by (auto simp: list_all_iff is_space_def char_defs)
  have h: "BACKTICK \<notin> set ?s" "SLASH \<notin> set ?s"
    using bt sl wsb b by (auto simp: char_defs)
  have "trim_start ?s = trim_start pre @ COMMA # ws @ b # post"
    using nc by (rule trim_start_before)
  then have t: "trim ?s = trim_start pre @ COMMA # ws @ b # trim_end post"
    using trim_end_after [OF nb, of "trim_start pre @ COMMA # ws" post] by (simp add: trim_def)
  have "map straighten_quote (trim ?s)
        = map straighten_quote (trim_start pre) @ COMMA # ws @ b # map straighten_quote (trim_end post)"
    using t sqc sqb map_straighten_spaces [OF ws] by simp
  then have "remove_trailing_commas (map straighten_quote (trim ?s))
        = remove_trailing_commas (map straighten_quote (trim_start pre))
          @ b # remove_trailing_commas (map straighten_quote (trim_end post))"
    using remove_trailing_commas_at [OF ws b] by simp
  with sanitize_quotes_only [OF h] show ?thesis by simp
qed

section \<open>Texts without a fence\<close>

lemma no_fence_tail:
  "split_at FENCE (c # cs) = None \<Longrightarrow> \<not> starts_with FENCE (c # cs) \<and> split_at FENCE cs = None"
  by (auto simp del: starts_with.simps split: if_splits option.splits)

lemma starts_with_ci_FENCE:
  "starts_with_ci (FENCE @ p) s \<Longrightarrow> starts_with FENCE s"
  by (cases s; cases "tl s"; cases "tl (tl s)")
     (auto simp: FENCE_def lower_ascii_def BACKTICK_def split: if_splits)

lemma no_fence_after_json: "split_at FENCE s = None \<Longrightarrow> after_json_fence s = None"
proof (induction s)
  case Nil
  then show ?case by simp
next
  case (Cons c cs)
  from no_fence_tail [OF Cons.prems] have a: "\<not> starts_with FENCE (c # cs)" and b: "split_at FENCE cs = None"
    by simp_all
  from a have "\<not> starts_with_ci (FENCE @ js ''json'') (c # cs)"
    using starts_with_ci_FENCE by blast
  with Cons.IH [OF b] show ?case by (simp del: starts_with.simps starts_with_ci.simps)
qed

lemma no_fence_candidates:
  "split_at FENCE s = None \<Longrightarrow> fencedJson s = None \<and> fencedAny s = None"
  by (simp add: fencedJson_def fencedAny_def no_fence_after_json)

lemma no_fence_label: "split_at FENCE s = None \<Longrightarrow> replace_fence_label s = s"
proof (induction s)
  case Nil
  then show ?case by simp
next
  case (Cons c cs)
  from no_fence_tail [OF Cons.prems] have a: "\<not> starts_with FENCE (c # cs)" and b: "split_at FENCE cs = None"
    by simp_all
  with Cons.IH [OF b] show ?case by (simp del: starts_with.simps)
qed

lemma no_fence_remove: "split_at FENCE s = None \<Longrightarrow> remove_fences s = s"
proof (induction s)
  case Nil
  then show ?case by simp
next
  case (Cons c cs)
  from no_fence_tail [OF Cons.prems] have a: "\<not> starts_with FENCE (c # cs)" and b: "split_at FENCE cs = None"
    by simp_all
  with Cons.IH [OF b] show ?case by (simp del: starts_with.simps)
qed

lemma no_backtick_no_fence: "BACKTICK \<notin> set s \<Longrightarrow> split_at FENCE s = None"
  by (induction s) (auto simp: FENCE_def)

lemma starts_with_append: "starts_with p xs \<Longrightarrow> starts_with p (xs @ ys)"
  by (induction p xs rule: starts_with.induct) auto

lemma split_at_suffix: "split_at p (xs @ ys) = None \<Longrightarrow> p \<noteq> [] \<Longrightarrow> split_at p ys = None"
proof (induction xs)
  case Nil
  then show ?case by simp
next
  case (Cons c cs)
  from Cons.prems(1) have "split_at p (cs @ ys) = None"
    by (auto simp del: starts_with.simps split: if_splits option.splits)
  with Cons show ?case by blast
qed

lemma split_at_prefix: "split_at p (xs @ ys) = None \<Longrightarrow> p \<noteq> [] \<Longrightarrow> split_at p xs = None"
proof (induction xs)
  case Nil
  then show ?case by simp
next
  case (Cons c cs)
  from Cons.prems(1) have a: "\<not> starts_with p (c # cs @ ys)" and b: "split_at p (cs @ ys) = None"
    by (auto simp del: starts_with.simps split: if_splits option.splits)
  from a have "\<not> starts_with p (c # cs)" using starts_with_append [of p "c # cs" ys] by auto
  with Cons.IH [OF b Cons.prems(2)] show ?case by (simp del: starts_with.simps)
qed

lemma trim_start_suffix: "\<exists>ws. s = ws @ trim_start s \<and> list_all is_space ws"
proof -
  have "s = takeWhile is_space s @ trim_start s" by (simp add: trim_start_def)
  moreover have "list_all is_space (takeWhile is_space s)"
    by (auto simp: list_all_iff dest: set_takeWhileD)
  ultimately show ?thesis by blast
qed

lemma trim_end_prefix: "\<exists>ws. s = trim_end s @ ws \<and> list_all is_space ws"
proof -
  obtain ws where w: "rev s = ws @ trim_start (rev s)" "list_all is_space ws"
    using trim_start_suffix [of "rev s"] by blast
  then have "rev (rev s) = rev (ws @ trim_start (rev s))" by simp
  then have "s = trim_end s @ rev ws" by (simp add: trim_end_def trim_start_def)
  moreover have "list_all is_space (rev ws)" using w(2) by (simp add: list_all_iff)
  ultimately show ?thesis by blast
qed

lemma no_fence_trim: "split_at FENCE s = None \<Longrightarrow> split_at FENCE (trim s) = None"
proof -
  assume a: "split_at FENCE s = None"
  have ne: "FENCE \<noteq> []" by (simp add: FENCE_def)
  obtain ws where "s = ws @ trim_start s" using trim_start_suffix by blast
  with a have b: "split_at FENCE (trim_start s) = None" using split_at_suffix [OF _ ne] by metis
  obtain vs where "trim_start s = trim_end (trim_start s) @ vs" using trim_end_prefix by blast
  with b show ?thesis using split_at_prefix [OF _ ne] unfolding trim_def by metis
qed

section \<open>The brace scan on an object whose braces balance\<close>

lemma scan_loop_balanced:
  "balanced d ins body \<Longrightarrow> (lc = Some BACKSLASH \<longrightarrow> next_not_quote body) \<Longrightarrow> 0 < n
   \<Longrightarrow> scan_loop (body @ RBRACE # post) n (int d + 1, ins, lc) = Some (n + length body)"
proof (induction d ins body arbitrary: n lc rule: balanced.induct)
  case (1 d inString)
  then show ?case by (simp add: scan_step_def char_defs)
next
  case (2 d inString c cs)
  show ?case
  proof (cases inString)
    case True
    note ins = True
    show ?thesis
    proof (cases "c = DQUOTE")
      case True
      with 2 ins have lcn: "lc \<noteq> Some BACKSLASH" and b: "balanced d False cs"
        by (auto simp: next_not_quote_def)
      have st: "scan_step (int d + 1, True, lc) c = (int d + 1, False, Some c)"
        using True lcn by (simp add: scan_step_def char_defs)
      have "scan_loop (cs @ RBRACE # post) (Suc n) (int d + 1, False, Some c) = Some (Suc n + length cs)"
        using "2.IH"(1) [OF ins True b, of "Some c" "Suc n"] True by (simp add: char_defs)
      with st ins show ?thesis by simp
    next
      case False
      note nq = False
      show ?thesis
      proof (cases "c = BACKSLASH")
        case True
        with 2 ins nq obtain e cs' where cs: "cs = e # cs'"
          and e: "e = BACKSLASH \<longrightarrow> next_not_quote cs'" and b: "balanced d True cs'"
          by (cases cs) auto
        have st1: "scan_step (int d + 1, True, lc) c = (int d + 1, True, Some BACKSLASH)"
          using True by (simp add: scan_step_def char_defs)
        have st2: "scan_step (int d + 1, True, Some BACKSLASH) e = (int d + 1, True, Some e)"
          by (simp add: scan_step_def)
        have "scan_loop (cs' @ RBRACE # post) (Suc (Suc n)) (int d + 1, True, Some e)
              = Some (Suc (Suc n) + length cs')"
          using "2.IH"(2) [OF ins nq True cs b, of "Some e" "Suc (Suc n)"] e by simp
        with st1 st2 ins cs show ?thesis by simp
      next
        case False
        with 2 ins nq have b: "balanced d True cs" by simp
        have st: "scan_step (int d + 1, True, lc) c = (int d + 1, True, Some c)"
          using nq by (simp add: scan_step_def)
        have "scan_loop (cs @ RBRACE # post) (Suc n) (int d + 1, True, Some c) = Some (Suc n + length cs)"
          using "2.IH"(3) [OF ins nq False b, of "Some c" "Suc n"] False by simp
        with st ins show ?thesis by simp
      qed
    qed
  next
    case False
    note ins = False
    show ?thesis
    proof (cases "c = DQUOTE")
      case True
      with 2 ins have lcn: "lc \<noteq> Some BACKSLASH" and b: "balanced d True cs"
        by (auto simp: next_not_quote_def)
      have st: "scan_step (int d + 1, False, lc) c = (int d + 1, True, Some c)"
        using True lcn by (simp add: scan_step_def char_defs)
      have "scan_loop (cs @ RBRACE # post) (Suc n) (int d + 1, True, Some c) = Some (Suc n + length cs)"
        using "2.IH"(4) [OF ins True b, of "Some c" "Suc n"] True by (simp add: char_defs)
      with st ins show ?thesis by simp
    next
      case False
      note nq = False
      show ?thesis
      proof (cases "c = BACKSLASH")
        case True
        with 2 ins nq have nn: "next_not_quote cs" and b: "balanced d False cs" by simp_all
        have st: "scan_step (int d + 1, False, lc) c = (int d + 1, False, Some c)"
          using True by (simp add: scan_step_def char_defs)
        have "scan_loop (cs @ RBRACE # post) (Suc n) (int d + 1, False, Some c) = Some (Suc n + length cs)"
          using "2.IH"(5) [OF ins nq True b, of "Some c" "Suc n"] nn by simp
        with st ins show ?thesis by simp
      next
        case False
        note nb = False
        show ?thesis
        proof (cases "c = LBRACE")
          case True
          with 2 ins nq nb have b: "balanced (Suc d) False cs" by simp
          have st: "scan_step (int d + 1, False, lc) c = (int (Suc d) + 1, False, Some c)"
            using True by (simp add: scan_step_def char_defs)
          have "scan_loop (cs @ RBRACE # post) (Suc n) (int (Suc d) + 1, False, Some c)
                = Some (Suc n + length cs)"
            using "2.IH"(6) [OF ins nq nb True b, of "Some c" "Suc n"] nb by simp
          with st ins show ?thesis by simp
        next
          case False
          note nl = False
          show ?thesis
          proof (cases "c = RBRACE")
            case True
            with 2 ins nq nb nl have d: "0 < d" and b: "balanced (d - 1) False cs" by simp_all
            have st: "scan_step (int d + 1, False, lc) c = (int (d - 1) + 1, False, Some c)"
              using True d by (simp add: scan_step_def char_defs)
            have "scan_loop (cs @ RBRACE # post) (Suc n) (int (d - 1) + 1, False, Some c)
                  = Some (Suc n + length cs)"
              using "2.IH"(7) [OF ins nq nb nl True b, of "Some c" "Suc n"] nb by simp
            with st ins show ?thesis by simp
          next
            case False
            with 2 ins nq nb nl have b: "balanced d False cs" by simp
            have st: "scan_step (int d + 1, False, lc) c = (int d + 1, False, Some c)"
              using nq nl False by (simp add: scan_step_def)
            have "scan_loop (cs @ RBRACE # post) (Suc n) (int d + 1, False, Some c)
                  = Some (Suc n + length cs)"
              using "2.IH"(8) [OF ins nq nb nl False b, of "Some c" "Suc n"] nb by simp
            with st ins show ?thesis by simp
          qed
        qed
      qed
    qed
  qed
qed

lemma indexOf_append: "c \<notin> set pre \<Longrightarrow> indexOf c (pre @ c # rest) = Some (length pre)"
  by (induction pre) auto

lemma trim_ends:
  "s \<noteq> [] \<Longrightarrow> \<not> is_space (hd s) \<Longrightarrow> \<not> is_space (last s) \<Longrightarrow> trim s = s"
proof -
  assume ne: "s \<noteq> []" and h: "\<not> is_space (hd s)" and l: "\<not> is_space (last s)"
  from ne h have ts: "trim_start s = s" by (cases s) (auto simp: trim_start_def)
  from ne l have "dropWhile is_space (rev s) = rev s"
    by (cases "rev s") (auto simp: last_rev [symmetric] hd_rev)
  then have "trim_end s = s" by (simp add: trim_end_def)
  with ts show ?thesis by (simp add: trim_def)
qed

lemma trim_braces: "trim (LBRACE # body @ [RBRACE]) = LBRACE # body @ [RBRACE]"
  by (rule trim_ends) (simp_all add: is_space_def char_defs)

lemma brace_scan_object:
  assumes "LBRACE \<notin> set pre" and "balanced 0 False body"
  shows "brace_scan (pre @ LBRACE # body @ RBRACE # post) = Some (LBRACE # body @ [RBRACE])"
proof -
  let ?s = "pre @ LBRACE # body @ RBRACE # post"
  have i: "indexOf LBRACE ?s = Some (length pre)"
    using assms(1) by (rule indexOf_append)
  have first: "scan_step (0, False, None) LBRACE = (1, False, Some LBRACE)"
    by (simp add: scan_step_def char_defs)
  have "scan_loop (body @ RBRACE # post) (Suc 0) (int 0 + 1, False, Some LBRACE)
        = Some (Suc 0 + length body)"
    using scan_loop_balanced [OF assms(2), of "Some LBRACE" "Suc 0" post] by (simp add: char_defs)
  with first have l: "scan_loop (drop (length pre) ?s) 0 (0, False, None) = Some (Suc (length body))"
    by simp
  have "slice (length pre) (length pre + Suc (length body) + 1) ?s = LBRACE # body @ [RBRACE]"
    by (simp add: slice_def)
  with i l show ?thesis
    by (simp add: brace_scan_def trim_braces)
qed

lemma brace_scan_no_brace: "LBRACE \<notin> set s \<Longrightarrow> brace_scan s = None"
  using indexOf_None_iff [of LBRACE s] by (simp add: brace_scan_def)

lemma quoted_balanced: "quoted_braces_only ins s \<Longrightarrow> balanced 0 ins s"
  by (induction ins s rule: quoted_braces_only.induct) (auto split: list.splits if_splits)

lemma extract_object:
  assumes "LBRACE \<notin> set pre" and "balanced 0 False body"
    and "\<not> truthy_group (fencedJson (pre @ LBRACE # body @ RBRACE # post))"
    and "\<not> truthy_group (fencedAny (pre @ LBRACE # body @ RBRACE # post))"
  shows "extractJsonFromText (pre @ LBRACE # body @ RBRACE # post) = Some (LBRACE # body @ [RBRACE])"
  using brace_scan_object [OF assms(1) assms(2), of post] assms(3) assms(4)
  by (simp add: extractJsonFromText_def)

section \<open>The sanitizer on an object without fence and comment\<close>

lemma no_block_comment_id: "\<not> block_comment s \<Longrightarrow> strip_block_comments s = s"
proof (induction s)
  case Nil
  then show ?case by simp
next
  case (Cons c cs)
  then have a: "\<not> (starts_with [SLASH, STAR] (c # cs) \<and> split_at [STAR, SLASH] (drop 1 cs) \<noteq> None)"
    and b: "\<not> block_comment cs" by (simp_all del: starts_with.simps)
  from a Cons.IH [OF b] show ?case by (auto simp del: starts_with.simps split: option.splits)
qed

lemma no_unprotected_id: "\<not> unprotected_comment s \<Longrightarrow> strip_line_comments_from s = s"
proof (induction s)
  case Nil
  then show ?case by simp
next
  case (Cons c cs)
  then have a: "\<not> (c \<noteq> COLON \<and> c \<noteq> BACKSLASH \<and> starts_with [SLASH, SLASH] cs)"
    and b: "\<not> unprotected_comment cs" by (simp_all del: starts_with.simps)
  from a Cons.IH [OF b] show ?case by (auto simp del: starts_with.simps)
qed

lemma no_line_comment_id:
  "\<not> starts_with [SLASH, SLASH] s \<Longrightarrow> \<not> unprotected_comment s \<Longrightarrow> strip_line_comments s = s"
  by (simp add: strip_line_comments_def no_unprotected_id del: starts_with.simps)

lemma straighten_eq:
  "a \<noteq> DQUOTE \<Longrightarrow> a \<noteq> SQUOTE \<Longrightarrow> a \<noteq> LDQUOTE \<Longrightarrow> a \<noteq> RDQUOTE \<Longrightarrow> a \<noteq> LSQUOTE
   \<Longrightarrow> a \<noteq> RSQUOTE \<Longrightarrow> (straighten_quote x = a) = (x = a)"
  by (auto simp: straighten_quote_def)

lemma starts_with2_map:
  assumes "\<And>x. (f x = a) = (x = a)" and "\<And>x. (f x = b) = (x = b)"
  shows "starts_with [a, b] (map f s) = starts_with [a, b] s"
proof -
  have e1: "(a = f x) = (a = x)" for x
    by (metis assms(1))
  have e2: "(b = f x) = (b = x)" for x
    by (metis assms(2))
  note e = e1 e2
  show ?thesis
  proof (cases s)
    case Nil
    then show ?thesis by simp
  next
    case (Cons x xs)
    then show ?thesis by (cases xs) (simp_all add: e)
  qed
qed

lemma split_at2_map:
  assumes "\<And>x. (f x = a) = (x = a)" and "\<And>x. (f x = b) = (x = b)"
  shows "(split_at [a, b] (map f s) = None) = (split_at [a, b] s = None)"
proof (induction s)
  case Nil
  then show ?case by simp
next
  case (Cons c cs)
  have "starts_with [a, b] (map f (c # cs)) = starts_with [a, b] (c # cs)"
    using assms by (rule starts_with2_map)
  with Cons show ?case by (auto simp del: starts_with.simps split: option.splits)
qed

lemma block_comment_straighten: "block_comment (map straighten_quote s) = block_comment s"
proof (induction s)
  case Nil
  then show ?case by simp
next
  case (Cons c cs)
  have sl: "(straighten_quote x = SLASH) = (x = SLASH)" for x
    by (rule straighten_eq) (simp_all add: char_defs)
  have st: "(straighten_quote x = STAR) = (x = STAR)" for x
    by (rule straighten_eq) (simp_all add: char_defs)
  have a: "starts_with [SLASH, STAR] (map straighten_quote (c # cs)) = starts_with [SLASH, STAR] (c # cs)"
    using sl st by (rule starts_with2_map)
  have "(split_at [STAR, SLASH] (map straighten_quote (drop 1 cs)) = None)
        = (split_at [STAR, SLASH] (drop 1 cs) = None)"
    using st sl by (rule split_at2_map)
  then have b: "(split_at [STAR, SLASH] (drop 1 (map straighten_quote cs)) = None)
        = (split_at [STAR, SLASH] (drop 1 cs) = None)"
    by (simp add: drop_map)
  have "block_comment (map straighten_quote (c # cs))
        = ((starts_with [SLASH, STAR] (map straighten_quote (c # cs))
            \<and> split_at [STAR, SLASH] (drop 1 (map straighten_quote cs)) \<noteq> None)
           \<or> block_comment (map straighten_quote cs))"
    by (simp del: starts_with.simps)
  with a b Cons show ?case by (simp del: starts_with.simps)
qed

lemma unprotected_straighten:
  "unprotected_comment (map straighten_quote s) = unprotected_comment s"
proof (induction s)
  case Nil
  then show ?case by simp
next
  case (Cons c cs)
  have sl: "(straighten_quote x = SLASH) = (x = SLASH)" for x
    by (rule straighten_eq) (simp_all add: char_defs)
  have co: "(straighten_quote x = COLON) = (x = COLON)" for x
    by (rule straighten_eq) (simp_all add: char_defs)
  have ba: "(straighten_quote x = BACKSLASH) = (x = BACKSLASH)" for x
    by (rule straighten_eq) (simp_all add: char_defs)
  have a: "starts_with [SLASH, SLASH] (map straighten_quote cs) = starts_with [SLASH, SLASH] cs"
    using sl sl by (rule starts_with2_map)
  with Cons co ba show ?case by (simp del: starts_with.simps)
qed

lemma trim_start_last: "trim_start cs = b # rest \<Longrightarrow> last cs = last (b # rest)"
proof -
  assume a: "trim_start cs = b # rest"
  then have d: "dropWhile is_space cs = b # rest" by (simp add: trim_start_def)
  have l: "last (takeWhile is_space cs @ (b # rest)) = last (b # rest)"
    by (rule last_appendR) simp
  have "takeWhile is_space cs @ (b # rest) = cs"
    using takeWhile_dropWhile_id [of is_space cs] d by (simp only:)
  with l show ?thesis by (simp only:)
qed

lemma remove_trailing_commas_last:
  "s \<noteq> [] \<Longrightarrow> remove_trailing_commas s \<noteq> [] \<and> last (remove_trailing_commas s) = last s"
proof (induction s rule: length_induct)
  case (1 s)
  then obtain c cs where s: "s = c # cs" by (cases s) auto
  have ih: "remove_trailing_commas p \<noteq> [] \<and> last (remove_trailing_commas p) = last p"
    if "length p < length s" "p \<noteq> []" for p
    using 1 that by blast
  show ?case
  proof (cases "c = COMMA \<and> (\<exists>b rest. trim_start cs = b # rest \<and> (b = RBRACE \<or> b = RBRACKET))")
    case True
    then obtain b rest where tr: "trim_start cs = b # rest" and b: "b = RBRACE \<or> b = RBRACKET"
      by blast
    have r: "remove_trailing_commas s = b # remove_trailing_commas rest"
      using True tr b s by auto
    have "cs \<noteq> []" using tr by (auto simp: trim_start_def)
    then have l: "last s = last (b # rest)" using trim_start_last [OF tr] s by simp
    show ?thesis
    proof (cases "rest = []")
      case True
      with r l show ?thesis by simp
    next
      case False
      have "length rest < length s" using trim_start_shorter [OF tr] s by simp
      from ih [OF this False] r l False show ?thesis by simp
    qed
  next
    case False
    then have r: "remove_trailing_commas s = c # remove_trailing_commas cs"
      using s by (auto split: list.splits)
    show ?thesis
    proof (cases "cs = []")
      case True
      with r s show ?thesis by simp
    next
      case False
      have "length cs < length s" using s by simp
      from ih [OF this False] r s False show ?thesis by simp
    qed
  qed
qed

lemma remove_trailing_commas_braces:
  "\<exists>ys. remove_trailing_commas (LBRACE # body @ [RBRACE]) = LBRACE # ys @ [RBRACE]"
proof -
  have c: "LBRACE \<noteq> COMMA" by (simp add: char_defs)
  have "remove_trailing_commas (body @ [RBRACE]) \<noteq> []
        \<and> last (remove_trailing_commas (body @ [RBRACE])) = last (body @ [RBRACE])"
    by (rule remove_trailing_commas_last) simp
  then have "remove_trailing_commas (body @ [RBRACE])
             = butlast (remove_trailing_commas (body @ [RBRACE])) @ [RBRACE]"
    using append_butlast_last_id [of "remove_trailing_commas (body @ [RBRACE])"] by simp
  with c show ?thesis by auto
qed

lemma sanitize_object:
  assumes nf: "split_at FENCE (LBRACE # body @ [RBRACE]) = None"
    and nb: "\<not> block_comment (LBRACE # body @ [RBRACE])"
    and nl: "\<not> unprotected_comment (LBRACE # body @ [RBRACE])"
  shows "sanitizeJsonString (LBRACE # body @ [RBRACE])
         = remove_trailing_commas (map straighten_quote (LBRACE # body @ [RBRACE]))"
proof -
  let ?t = "LBRACE # body @ [RBRACE]"
  let ?u = "map straighten_quote ?t"
  have l: "straighten_quote LBRACE = LBRACE" and r: "straighten_quote RBRACE = RBRACE"
    by (simp_all add: straighten_quote_def char_defs)
  have u: "?u = LBRACE # map straighten_quote body @ [RBRACE]" using l r by simp
  have b: "strip_block_comments ?u = ?u"
    using nb block_comment_straighten [of ?t] no_block_comment_id [of ?u] by simp
  have "\<not> starts_with [SLASH, SLASH] ?u" using u by (simp add: char_defs)
  moreover have "\<not> unprotected_comment ?u" using nl unprotected_straighten [of ?t] by simp
  ultimately have c: "strip_line_comments ?u = ?u" by (rule no_line_comment_id)
  obtain ys where ys: "remove_trailing_commas ?u = LBRACE # ys @ [RBRACE]"
    by (metis u remove_trailing_commas_braces)
  have t: "trim ?t = ?t" by (rule trim_braces)
  have f1: "replace_fence_label ?t = ?t" using nf by (rule no_fence_label)
  have f2: "remove_fences ?t = ?t" using nf by (rule no_fence_remove)
  have ne: "?t \<noteq> []" by simp
  have "sanitizeJsonString ?t
        = trim (remove_trailing_commas (strip_line_comments (strip_block_comments
            (replace_curly_single (replace_curly_double
               (remove_fences (replace_fence_label (trim ?t))))))))"
    using ne by (simp only: sanitizeJsonString_def if_False)
  also have "\<dots> = trim (remove_trailing_commas (strip_line_comments (strip_block_comments ?u)))"
    by (simp only: t f1 f2 replace_curly_straighten)
  also have "\<dots> = trim (remove_trailing_commas ?u)" by (simp only: b c)
  also have "\<dots> = remove_trailing_commas ?u" by (simp only: ys trim_braces)
  finally show ?thesis .
qed

section \<open>Where the cascade stops\<close>

lemma direct_success:
  "JSON_parse text = Some v \<Longrightarrow> serializes v
   \<Longrightarrow> netlify_cascade serializes text = (v, [ParseTried text, SerializeTried v])"
  by (simp add: cascade_defs)

lemma reparse_success:
  "attempt serializes text = None \<Longrightarrow> extractJsonFromText text = Some c
   \<Longrightarrow> JSON_parse (sanitizeJsonString c) = Some v \<Longrightarrow> serializes v
   \<Longrightarrow> netlify_cascade serializes text
       = (v, attempt_events text
             @ [ExtractTried text, SanitizeTried c, ParseTried (sanitizeJsonString c),
                SerializeTried v])"
  using extract_nonempty [of "text"]
  by (auto simp: netlify_cascade_def cascade_def emit_def attempt_def attempt_events_def
      split: option.splits if_splits)

lemma recover_candidate:
  "attempt serializes text = None \<Longrightarrow> extractJsonFromText text = Some c
   \<Longrightarrow> JSON_parse (sanitizeJsonString c) = Some v \<Longrightarrow> serializes v
   \<Longrightarrow> recover serializes text = v"
  using reparse_success [of serializes "text" c v] by (simp add: recover_def)

lemma recover_direct: "attempt serializes text = Some w \<Longrightarrow> recover serializes text = w"
  by (simp add: recover_def netlify_cascade_def cascade_def emit_def)

text \<open>
  The two handlers return the same value for the same raw text; what is proved of
  \<open>recover\<close> holds of the cascade of \<open>server.js\<close> too, whether its log writes return
  or throw.
\<close>

lemma server_cascade_result:
  "fst (server_cascade serializes log_ok text) = recover serializes text"
  by (simp add: cascade_defs split: option.splits)

lemma map_straighten_id: "no_curly s \<Longrightarrow> map straighten_quote s = s"
  by (induction s) (auto simp: no_curly_def straighten_quote_def)

lemma recover_embedded_object:
  assumes nf: "split_at FENCE (pre @ LBRACE # body @ RBRACE # post) = None"
    and pre: "LBRACE \<notin> set pre"
    and nb: "\<not> block_comment (LBRACE # body @ [RBRACE])"
    and nl: "\<not> unprotected_comment (LBRACE # body @ [RBRACE])"
    and bal: "balanced 0 False body"
    and raw: "JSON_parse (pre @ LBRACE # body @ RBRACE # post) = None"
    and p: "JSON_parse (remove_trailing_commas (map straighten_quote (LBRACE # body @ [RBRACE])))
            = Some v"
    and s: "serializes v"
  shows "sanitizeJsonString (LBRACE # body @ [RBRACE])
           = remove_trailing_commas (map straighten_quote (LBRACE # body @ [RBRACE]))
         \<and> recover serializes (pre @ LBRACE # body @ RBRACE # post) = v"
proof -
  let ?raw = "pre @ LBRACE # body @ RBRACE # post"
  let ?t = "LBRACE # body @ [RBRACE]"
  have ne: "FENCE \<noteq> []" by (simp add: FENCE_def)
  have "?raw = pre @ (?t @ post)" by simp
  with nf have "split_at FENCE (pre @ (?t @ post)) = None" by (simp only:)
  then have "split_at FENCE (?t @ post) = None" using ne by (rule split_at_suffix)
  then have nft: "split_at FENCE ?t = None" using ne by (rule split_at_prefix)
  have sk: "sanitizeJsonString ?t = remove_trailing_commas (map straighten_quote ?t)"
    using nft nb nl by (rule sanitize_object)
  have a: "attempt serializes ?raw = None" using raw by (simp add: attempt_def)
  have "\<not> truthy_group (fencedJson ?raw)" "\<not> truthy_group (fencedAny ?raw)"
    using no_fence_candidates [OF nf] by (simp_all add: truthy_group_def)
  with pre bal have e: "extractJsonFromText ?raw = Some ?t" by (rule extract_object)
  have q: "JSON_parse (sanitizeJsonString ?t) = Some v" using sk p by (simp only:)
  have "recover serializes ?raw = v" using a e q s by (rule recover_candidate)
  with sk show ?thesis by (rule conjI)
qed

section \<open>The cascade on the spec's example\<close>

lemma day1_parse: "JSON_parse day1_text = Some day1_value"
  by (simp add: day1_text_def day1_value_def parse_defs)

lemma day1_sanitize: "sanitizeJsonString day1_text = day1_text"
  by (simp add: day1_text_def sanitize_defs)

lemma fenced_parse: "JSON_parse fenced_text = None"
  by (simp add: fenced_text_def day1_text_def parse_defs)

lemma fenced_extract: "extractJsonFromText fenced_text = Some day1_text"
  by (simp add: fenced_text_def day1_text_def extract_defs)

lemma day1_nonempty: "day1_text \<noteq> []"
  by (simp add: day1_text_def js_def)

lemma fenced_cascade:
  "netlify_cascade every_value fenced_text =
     (day1_value, [ParseTried fenced_text, ExtractTried fenced_text,
                   SanitizeTried day1_text, ParseTried day1_text, SerializeTried day1_value])"
  by (simp add: cascade_defs fenced_parse fenced_extract day1_nonempty day1_sanitize day1_parse)

lemma day1_shape: "itinerary_result day1_value"
  by (simp add: itinerary_result_def day1_value_def field_def is_string_def is_array_def js_def)

section \<open>The cascade returns a parsed value or the fallback object\<close>

text \<open>
  Claim C1. Every function of the model is total (each loop of the source is a recursion
  whose termination is proved), and each \<open>SyntaxError\<close> of \<open>JSON.parse\<close> is a branch
  of the cascade, as is each throw of the serialization of a parsed value. For every raw
  text and every runtime, the cascade of either handler returns one value:
  the fallback object built from the raw text, or the value that \<open>JSON.parse\<close> returned
  for one of the texts the cascade tried. In \<open>server.js\<close> this holds whether the log
  writes return or throw.
\<close>

theorem c1_parsed_or_fallback:
  "(recover serializes text = fallback text
      \<or> (\<exists>s \<in> set (parse_attempts (snd (netlify_cascade serializes text))).
            JSON_parse s = Some (recover serializes text)))
   \<and> (fst (server_cascade serializes log_ok text) = fallback text
      \<or> (\<exists>s \<in> set (parse_attempts (snd (server_cascade serializes log_ok text))).
            JSON_parse s = Some (fst (server_cascade serializes log_ok text))))"
  by (auto simp: cascade_defs split: option.splits if_splits)

text \<open>
  The empty string, white space, prose without JSON and a truncated object all end in the
  fallback object.
\<close>

lemma recover_empty: "recover serializes [] = fallback []"
  by (simp add: cascade_defs parse_defs extractJsonFromText_def)

lemma recover_whitespace:
  "recover serializes (js '' \<newline>  '') = fallback (js '' \<newline>  '')"
proof -
  have "JSON_parse (js '' \<newline>  '') = None"
    by (simp add: parse_defs)
  moreover have "extractJsonFromText (js '' \<newline>  '') = None"
    by (simp add: extract_defs)
  ultimately show ?thesis
    by (simp add: cascade_defs)
qed

lemma recover_prose:
  "recover serializes (js ''Sorry, I cannot plan this trip.'')
     = fallback (js ''Sorry, I cannot plan this trip.'')"
proof -
  have "JSON_parse (js ''Sorry, I cannot plan this trip.'') = None"
    by (simp add: parse_defs)
  moreover have "extractJsonFromText (js ''Sorry, I cannot plan this trip.'') = None"
    by (simp add: extract_defs)
  ultimately show ?thesis
    by (simp add: cascade_defs)
qed

lemma truncated_parse: "JSON_parse truncated_text = None"
  by (simp add: truncated_text_def parse_defs)

lemma truncated_extract: "extractJsonFromText truncated_text = None"
  by (simp add: truncated_text_def extract_defs)

theorem c1_parsed_or_fallback_witness:
  "recover every_value truncated_text = fallback truncated_text
   \<and> fst (server_cascade every_value False truncated_text) = fallback truncated_text"
  using c1_parsed_or_fallback [of every_value truncated_text False]
  by (simp add: cascade_defs truncated_parse truncated_extract)

section \<open>The order of the strategies\<close>

lemma extract_ordered: "extractJsonFromText s = ordered_candidate s"
proof (cases "s = []")
  case True
  then show ?thesis
    by (simp add: extractJsonFromText_def ordered_candidate_def json_fence_candidate_def
        any_fence_candidate_def fencedJson_def fencedAny_def brace_scan_def FENCE_def)
next
  case False
  show ?thesis
  proof (cases "fencedJson s")
    case None
    show ?thesis
    proof (cases "fencedAny s")
      case n2: None
      with None False show ?thesis
        by (simp add: extractJsonFromText_def ordered_candidate_def json_fence_candidate_def
            any_fence_candidate_def truthy_group_def split: option.splits)
    next
      case (Some g)
      with None False show ?thesis
        by (simp add: extractJsonFromText_def ordered_candidate_def json_fence_candidate_def
            any_fence_candidate_def truthy_group_def split: option.splits)
    qed
  next
    case (Some g)
    show ?thesis
    proof (cases "fencedAny s")
      case None
      with Some False show ?thesis
        by (simp add: extractJsonFromText_def ordered_candidate_def json_fence_candidate_def
            any_fence_candidate_def truthy_group_def split: option.splits)
    next
      case s2: (Some g2)
      with Some False show ?thesis
        by (simp add: extractJsonFromText_def ordered_candidate_def json_fence_candidate_def
            any_fence_candidate_def truthy_group_def split: option.splits)
    qed
  qed
qed

lemma recover_ordered: "recover serializes raw = ordered_recover serializes raw"
proof (cases "attempt serializes raw")
  case (Some v)
  then show ?thesis
    by (simp add: recover_def netlify_cascade_def cascade_def emit_def ordered_recover_def
        direct_parse_def)
next
  case None
  show ?thesis
  proof (cases "extractJsonFromText raw")
    case n2: None
    with None show ?thesis
      by (simp add: recover_def netlify_cascade_def cascade_def emit_def ordered_recover_def
          direct_parse_def sanitized_reparse_def outer_braces_retry_def
          extract_ordered [symmetric])
  next
    case (Some c)
    then have ne: "c \<noteq> []" using extract_nonempty [of raw] by auto
    with None Some show ?thesis
      by (simp add: recover_def netlify_cascade_def cascade_def emit_def ordered_recover_def
          direct_parse_def sanitized_reparse_def outer_braces_retry_def
          extract_ordered [symmetric] split: option.splits)
  qed
qed

lemma split_at_FENCE_first:
  "BACKTICK \<notin> set pre \<Longrightarrow> split_at FENCE (pre @ FENCE @ rest) = Some (pre, rest)"
proof (induction pre)
  case Nil
  then show ?case by (cases rest) (simp_all add: FENCE_def)
next
  case (Cons c cs)
  then have "\<not> starts_with FENCE (c # cs @ FENCE @ rest)" by (simp add: FENCE_def)
  with Cons show ?case by (simp del: starts_with.simps)
qed

lemma fence_interior_at:
  assumes "BACKTICK \<notin> set body"
  shows "fence_interior (body @ FENCE @ post) = Some (trim body)"
proof -
  have ns: "\<not> is_space BACKTICK" by (simp add: is_space_def char_defs)
  have "trim_start (body @ FENCE @ post) = trim_start body @ FENCE @ post"
    using trim_start_before [OF ns, of body "[BACKTICK, BACKTICK] @ post"] by (simp add: FENCE_def)
  moreover have "BACKTICK \<notin> set (trim_start body)" using assms set_trim_start [of body] by blast
  ultimately have "split_at FENCE (trim_start (body @ FENCE @ post)) = Some (trim_start body, post)"
    using split_at_FENCE_first by simp
  then show ?thesis by (simp add: fence_interior_def trim_def)
qed

lemma fencedAny_at:
  "BACKTICK \<notin> set pre \<and> BACKTICK \<notin> set body \<longrightarrow>
   fencedAny (pre @ FENCE @ body @ FENCE @ post) = Some (trim body)"
  by (simp add: fencedAny_def split_at_FENCE_first fence_interior_at)

lemma after_json_fence_at:
  assumes "BACKTICK \<notin> set pre" and "map lower_ascii label = js ''json''"
  shows "after_json_fence (pre @ FENCE @ label @ rest) = Some rest"
  using assms(1)
proof (induction pre)
  case Nil
  from assms(2) obtain a b c d where l: "label = [a, b, c, d]"
    and e: "lower_ascii a = 106" "lower_ascii b = 115" "lower_ascii c = 111" "lower_ascii d = 110"
    by (auto simp: js_def map_eq_Cons_conv)
  have j: "lower_ascii 106 = 106" "lower_ascii 115 = 115" "lower_ascii 111 = 111" "lower_ascii 110 = 110"
    by (simp_all add: lower_ascii_def)
  show ?case using l e j by (simp add: FENCE_def js_def)
next
  case (Cons c cs)
  then have c: "c \<noteq> BACKTICK" by simp
  then have "lower_ascii BACKTICK \<noteq> lower_ascii c"
    by (auto simp: lower_ascii_def BACKTICK_def split: if_splits)
  then have "\<not> starts_with_ci (FENCE @ js ''json'') (c # cs @ FENCE @ label @ rest)"
    by (simp add: FENCE_def)
  with Cons show ?case by (simp del: starts_with_ci.simps)
qed

lemma fencedJson_at:
  "BACKTICK \<notin> set pre \<and> BACKTICK \<notin> set body \<and> map lower_ascii label = js ''json'' \<longrightarrow>
   fencedJson (pre @ FENCE @ label @ body @ FENCE @ post) = Some (trim body)"
  by (simp add: fencedJson_def after_json_fence_at fence_interior_at)

lemma empty_fence_parse: "JSON_parse empty_fence_text = None"
  by (simp add: empty_fence_text_def parse_defs)

lemma empty_fence_any: "fencedAny empty_fence_text = Some []"
  by (simp add: empty_fence_text_def extract_defs)

lemma empty_fence_json: "fencedJson empty_fence_text = None"
  by (simp add: empty_fence_text_def extract_defs)

lemma empty_fence_scan: "brace_scan empty_fence_text = Some a1_text"
  by (simp add: empty_fence_text_def a1_text_def extract_defs)

lemma empty_fence_extract: "extractJsonFromText empty_fence_text = Some a1_text"
  by (simp add: extractJsonFromText_def truthy_group_def empty_fence_any empty_fence_json
      empty_fence_scan) (simp add: empty_fence_text_def js_def)

lemma a1_sanitize: "sanitizeJsonString a1_text = a1_text"
  by (simp add: a1_text_def sanitize_defs)

lemma a1_parse: "JSON_parse a1_text = Some a1_value"
  by (simp add: a1_text_def a1_value_def parse_defs)

lemma a1_nonempty: "a1_text \<noteq> []"
  by (simp add: a1_text_def js_def)

text \<open>
  Claim C2, as stated, fails in its step (3): the source skips a fence whose interior is
  empty (\<open>fencedAny && fencedAny[1]\<close>) and goes on to the brace scan. In the text of six
  backticks followed by \<open>{"a":1}\<close> a fence matches, with the empty interior; the stated
  order has the empty candidate, the source scans the braces and returns the object.
\<close>

theorem c2_counterexample:
  "fencedAny empty_fence_text = Some []
   \<and> stated_candidate empty_fence_text = Some []
   \<and> extractJsonFromText empty_fence_text = Some a1_text
   \<and> recover every_value empty_fence_text = a1_value"
proof -
  have "stated_candidate empty_fence_text = Some []"
    by (simp add: stated_candidate_def stated_json_fence_def stated_any_fence_def
        empty_fence_json empty_fence_any trim_def trim_start_def trim_end_def)
  moreover have "recover every_value empty_fence_text = a1_value"
    by (simp add: cascade_defs empty_fence_parse empty_fence_extract a1_nonempty a1_sanitize
        a1_parse)
  ultimately show ?thesis
    using empty_fence_any empty_fence_extract by simp
qed

lemma fenced_upper_extract: "extractJsonFromText fenced_upper_text = Some day1_text"
  by (simp add: fenced_upper_text_def day1_text_def extract_defs)

lemma empty_json_fence_parse: "JSON_parse empty_json_fence_text = None"
  by (simp add: empty_json_fence_text_def parse_defs)

lemma empty_json_fence_groups:
  "fencedJson empty_json_fence_text = Some [] \<and> fencedAny empty_json_fence_text = Some (js ''json'')"
  by (simp add: empty_json_fence_text_def extract_defs)

lemma empty_json_fence_extract: "extractJsonFromText empty_json_fence_text = Some (js ''json'')"
  by (simp add: extractJsonFromText_def truthy_group_def empty_json_fence_groups)
     (simp add: empty_json_fence_text_def extract_defs)

lemma label_sanitize: "sanitizeJsonString (js ''json'') = js ''json''"
  by (simp add: sanitize_defs)

lemma label_parse: "JSON_parse (js ''json'') = None"
  by (simp add: parse_defs)

lemma empty_json_fence_recover:
  "recover every_value empty_json_fence_text = fallback empty_json_fence_text"
  by (simp add: cascade_defs empty_json_fence_parse empty_json_fence_extract label_sanitize
      label_parse outer_braces_def) (simp add: js_def char_defs)

lemma js_fence_parse: "JSON_parse js_fence_text = None"
  by (simp add: js_fence_text_def parse_defs)

lemma js_fence_extract: "extractJsonFromText js_fence_text = Some (js ''js\<newline>[1]'')"
  by (simp add: js_fence_text_def extract_defs)

lemma js_label_sanitize: "sanitizeJsonString (js ''js\<newline>[1]'') = js ''js\<newline>[1]''"
  by (simp add: sanitize_defs)

lemma js_label_parse: "JSON_parse (js ''js\<newline>[1]'') = None"
  by (simp add: parse_defs)

lemma js_fence_recover: "recover every_value js_fence_text = fallback js_fence_text"
  by (simp add: cascade_defs js_fence_parse js_fence_extract js_label_sanitize
      js_label_parse outer_braces_def) (simp add: js_def char_defs)

lemma truncated_scan: "brace_scan truncated_text = None"
  by (simp add: truncated_text_def extract_defs)

lemma nested_parse: "JSON_parse nested_text = Some nested_value"
  by (simp add: nested_text_def nested_value_def parse_defs)

lemma nested_extract: "extractJsonFromText nested_text = None"
  by (simp add: nested_text_def extract_defs)

lemma nested_deep:
  "netlify_cascade (stack_limit 1) nested_text
   = (fallback nested_text,
      [ParseTried nested_text, SerializeTried nested_value, ExtractTried nested_text])"
  by (simp add: cascade_defs nested_parse nested_extract stack_limit_def nested_value_def)

lemma nested_shallow: "recover (stack_limit 2) nested_text = nested_value"
  by (simp add: cascade_defs nested_parse stack_limit_def nested_value_def)

lemma direct_stop:
  "JSON_parse raw = Some v \<and> serializes v \<longrightarrow>
   netlify_cascade serializes raw = (v, [ParseTried raw, SerializeTried v])"
  using direct_success [of raw v serializes] by blast

lemma reparse_stop:
  "attempt serializes raw = None \<and> extractJsonFromText raw = Some c
     \<and> JSON_parse (sanitizeJsonString c) = Some v \<and> serializes v \<longrightarrow>
   netlify_cascade serializes raw
     = (v, attempt_events raw
           @ [ExtractTried raw, SanitizeTried c, ParseTried (sanitizeJsonString c),
              SerializeTried v])"
  using reparse_success [of serializes raw c v] by blast

lemma server_ordered: "fst (server_cascade serializes log_ok raw) = ordered_recover serializes raw"
  using server_cascade_result [of serializes log_ok raw] recover_ordered [of serializes raw]
  by simp

lemma scan_object:
  "LBRACE \<notin> set before \<and> balanced 0 False obj \<longrightarrow>
   brace_scan (before @ LBRACE # obj @ RBRACE # rest) = Some (LBRACE # obj @ [RBRACE])"
  using brace_scan_object [of before obj rest] by blast

lemma scan_no_brace: "LBRACE \<notin> set raw \<longrightarrow> brace_scan raw = None"
  using brace_scan_no_brace [of raw] by blast

lemma fenced_recover: "recover every_value fenced_text = day1_value"
  using fenced_cascade by (simp add: recover_def)

text \<open>
  Claim C2, amended. A strategy succeeds when its text parses and the parsed value is
  serialized; a fence yields a candidate when its capture is not empty. For every raw text
  the candidate of the source is the first success of: the capture of the fence labelled
  json, the capture of any fence, the brace scan from the first \<open>{\<close>; and the result of
  the cascade, in both handlers, is the first success of: the raw text, the sanitized
  candidate, the sanitized candidate between its first \<open>{\<close> and its last \<open>}\<close>; else the
  fallback object. The cascade stops at the first success: after the raw text is parsed
  and serialized nothing is extracted, and after the sanitized candidate is parsed and
  serialized nothing more is parsed. It goes on after a parse whose value the runtime does
  not serialize: the array \<open>[[1]]\<close> is returned by a runtime that serializes two levels
  of nesting; with one that serializes a single level the raw text parses, the
  serialization throws, no candidate is found and the result is the fallback object.

  The capture of the fence labelled json is the text between the label, in any case of its
  letters, and the next three backticks, trimmed. The capture of any fence is the text
  between the first three backticks and the next three, trimmed: a label after the opening
  backticks is part of it. So an empty fence labelled json before an object has the
  candidate \<open>json\<close>, and a fence labelled js has a candidate that starts with \<open>js\<close>; no
  brace is scanned, and both end in the fallback object. The brace scan returns the text
  from the first \<open>{\<close> to the brace that closes it, for every text whose braces balance
  after that \<open>{\<close>; it returns nothing for a text without \<open>{\<close> and for a truncated object.
  For the spec's example the result is the object \<open>{itinerary: "Day 1", places: []}\<close>.
\<close>

theorem c2_strict_order:
  "extractJsonFromText raw = ordered_candidate raw
   \<and> recover serializes raw = ordered_recover serializes raw
   \<and> fst (server_cascade serializes log_ok raw) = ordered_recover serializes raw
   \<and> (JSON_parse raw = Some v \<and> serializes v \<longrightarrow>
        netlify_cascade serializes raw = (v, [ParseTried raw, SerializeTried v]))
   \<and> (attempt serializes raw = None \<and> extractJsonFromText raw = Some c
        \<and> JSON_parse (sanitizeJsonString c) = Some v \<and> serializes v \<longrightarrow>
      netlify_cascade serializes raw
        = (v, attempt_events raw
              @ [ExtractTried raw, SanitizeTried c, ParseTried (sanitizeJsonString c),
                 SerializeTried v]))
   \<and> netlify_cascade (stack_limit 1) nested_text
       = (fallback nested_text,
          [ParseTried nested_text, SerializeTried nested_value, ExtractTried nested_text])
   \<and> recover (stack_limit 2) nested_text = nested_value
   \<and> (BACKTICK \<notin> set pre \<and> BACKTICK \<notin> set body \<and> map lower_ascii label = js ''json'' \<longrightarrow>
        fencedJson (pre @ FENCE @ label @ body @ FENCE @ post) = Some (trim body))
   \<and> (BACKTICK \<notin> set pre \<and> BACKTICK \<notin> set body \<longrightarrow>
        fencedAny (pre @ FENCE @ body @ FENCE @ post) = Some (trim body))
   \<and> (LBRACE \<notin> set before \<and> balanced 0 False obj \<longrightarrow>
        brace_scan (before @ LBRACE # obj @ RBRACE # rest) = Some (LBRACE # obj @ [RBRACE]))
   \<and> (LBRACE \<notin> set raw \<longrightarrow> brace_scan raw = None)
   \<and> brace_scan truncated_text = None
   \<and> extractJsonFromText empty_json_fence_text = Some (js ''json'')
   \<and> recover every_value empty_json_fence_text = fallback empty_json_fence_text
   \<and> extractJsonFromText js_fence_text = Some (js ''js\<newline>[1]'')
   \<and> recover every_value js_fence_text = fallback js_fence_text
   \<and> extractJsonFromText fenced_upper_text = Some day1_text
   \<and> recover every_value fenced_text = day1_value"
  by (intro conjI)
     (rule extract_ordered, rule recover_ordered, rule server_ordered, rule direct_stop,
      rule reparse_stop, rule nested_deep, rule nested_shallow, rule fencedJson_at, rule fencedAny_at,
      rule scan_object, rule scan_no_brace, rule truncated_scan, rule empty_json_fence_extract,
      rule empty_json_fence_recover, rule js_fence_extract, rule js_fence_recover,
      rule fenced_upper_extract, rule fenced_recover)

theorem c2_strict_order_witness:
  "ordered_candidate fenced_text = Some day1_text
   \<and> ordered_recover every_value fenced_text = day1_value
   \<and> netlify_cascade every_value fenced_text
       = (day1_value, [ParseTried fenced_text, ExtractTried fenced_text, SanitizeTried day1_text,
                       ParseTried (sanitizeJsonString day1_text), SerializeTried day1_value])
   \<and> fencedJson fenced_upper_text = Some day1_text
   \<and> fencedAny js_fence_text = Some (js ''js\<newline>[1]'')
   \<and> brace_scan (js ''Plan: '' @ LBRACE # old_town_body @ RBRACE # [])
       = Some (LBRACE # old_town_body @ [RBRACE])"
proof -
  note t = c2_strict_order [where raw = fenced_text and serializes = every_value
      and v = day1_value and c = day1_text and pre = "[]" and label = "js ''JSON''"
      and body = "10 # day1_text @ [10]" and post = "[]" and before = "js ''Plan: ''"
      and obj = old_town_body and rest = "[]" and log_ok = True]
  have a: "attempt every_value fenced_text = None"
    by (simp add: attempt_def fenced_parse)
  have ev: "attempt_events fenced_text = [ParseTried fenced_text]"
    by (simp add: attempt_events_def fenced_parse)
  have p: "JSON_parse (sanitizeJsonString day1_text) = Some day1_value"
    by (simp add: day1_sanitize day1_parse)
  have s: "every_value day1_value" by (simp add: every_value_def)
  have b: "BACKTICK \<notin> set ([]::jstring) \<and> BACKTICK \<notin> set (10 # day1_text @ [10])
           \<and> map lower_ascii (js ''JSON'') = js ''json''"
    by (simp add: day1_text_def js_def lower_ascii_def char_defs)
  have u: "fenced_upper_text = [] @ FENCE @ js ''JSON'' @ (10 # day1_text @ [10]) @ FENCE @ []"
    by (simp add: fenced_upper_text_def js_def char_defs)
  have tr: "trim (10 # day1_text @ [10]) = day1_text"
    by (simp add: day1_text_def extract_defs)
  have b2: "BACKTICK \<notin> set ([]::jstring) \<and> BACKTICK \<notin> set (js ''js\<newline>[1]\<newline>'')"
    by (simp add: js_def char_defs)
  have sc: "LBRACE \<notin> set (js ''Plan: '') \<and> balanced 0 False old_town_body"
    by (simp add: old_town_body_def js_def char_defs next_not_quote_def)
  from t have "extractJsonFromText fenced_text = ordered_candidate fenced_text" by blast
  then have c1: "ordered_candidate fenced_text = Some day1_text" by (simp add: fenced_extract)
  from t have "recover every_value fenced_text = ordered_recover every_value fenced_text"
    and "recover every_value fenced_text = day1_value" by blast+
  then have c2: "ordered_recover every_value fenced_text = day1_value" by simp
  from t a fenced_extract p s
  have "netlify_cascade every_value fenced_text
        = (day1_value, attempt_events fenced_text
              @ [ExtractTried fenced_text, SanitizeTried day1_text,
                 ParseTried (sanitizeJsonString day1_text), SerializeTried day1_value])"
    by blast
  then have c3: "netlify_cascade every_value fenced_text
       = (day1_value, [ParseTried fenced_text, ExtractTried fenced_text, SanitizeTried day1_text,
                       ParseTried (sanitizeJsonString day1_text), SerializeTried day1_value])"
    by (simp add: ev)
  from t b have "fencedJson ([] @ FENCE @ js ''JSON'' @ (10 # day1_text @ [10]) @ FENCE @ [])
                 = Some (trim (10 # day1_text @ [10]))"
    by blast
  then have c4: "fencedJson fenced_upper_text = Some day1_text" by (simp only: u [symmetric] tr)
  from t sc have c6: "brace_scan (js ''Plan: '' @ LBRACE # old_town_body @ RBRACE # [])
       = Some (LBRACE # old_town_body @ [RBRACE])"
    by blast
  have c5: "fencedAny js_fence_text = Some (js ''js\<newline>[1]'')"
    by (simp add: js_fence_text_def extract_defs)
  from c1 c2 c3 c4 c5 c6 show ?thesis by simp
qed
section \<open>The shape of the value returned\<close>

lemma fallback_shape: "itinerary_result (fallback text)"
  by (simp add: itinerary_result_def fallback_def field_def is_string_def is_array_def js_def)

lemma no_itinerary_parse:
  "JSON_parse no_itinerary_text = Some (JObject [(js ''places'', JArray [])])"
  by (simp add: no_itinerary_text_def parse_defs)

text \<open>
  Claim C3, as stated, fails: a completion that is valid JSON is returned as it was parsed,
  whatever its shape. For the completion \<open>{"places":[]}\<close> the result has no
  \<open>itinerary\<close>.
\<close>

theorem c3_counterexample:
  "recover every_value no_itinerary_text = JObject [(js ''places'', JArray [])]
   \<and> \<not> itinerary_result (recover every_value no_itinerary_text)"
  by (simp add: cascade_defs no_itinerary_parse itinerary_result_def field_def js_def)

text \<open>
  Claim C3, amended. The fallback object satisfies the invariant for every raw text, and
  the cascade checks no shape: its result satisfies the invariant whenever every text that
  \<open>JSON.parse\<close> accepted on the way parsed to a value that does.
\<close>

theorem c3_shape_of_result:
  "itinerary_result (fallback text)
   \<and> ((\<forall>s \<in> set (parse_attempts (snd (netlify_cascade serializes text))).
          \<forall>v. JSON_parse s = Some v \<longrightarrow> itinerary_result v)
        \<longrightarrow> itinerary_result (recover serializes text))"
  using fallback_shape
  by (auto simp: cascade_defs split: option.splits if_splits)

theorem c3_shape_of_result_witness:
  "parse_attempts (snd (netlify_cascade every_value fenced_text)) = [fenced_text, day1_text]
   \<and> JSON_parse fenced_text = None
   \<and> JSON_parse day1_text = Some day1_value
   \<and> itinerary_result day1_value
   \<and> itinerary_result (recover every_value fenced_text)"
proof -
  have hyp: "\<forall>s \<in> set (parse_attempts (snd (netlify_cascade every_value fenced_text))).
      \<forall>v. JSON_parse s = Some v \<longrightarrow> itinerary_result v"
    by (simp add: fenced_cascade fenced_parse day1_parse day1_shape)
  with c3_shape_of_result [of fenced_text every_value]
  have "itinerary_result (recover every_value fenced_text)"
    by blast
  then show ?thesis
    by (simp add: fenced_cascade fenced_parse day1_parse day1_shape)
qed

section \<open>A raw text without an opening brace\<close>

lemma array_parse: "JSON_parse array_text = Some (JArray [])"
  by (simp add: array_text_def parse_defs)

text \<open>
  Claim C4, as stated, fails: the direct parse comes first, and JSON values other than
  objects have no brace. The completion \<open>[]\<close> is returned as the empty array.
\<close>

theorem c4_counterexample:
  "LBRACE \<notin> set array_text \<and> recover every_value array_text = JArray []
   \<and> recover every_value array_text \<noteq> fallback array_text"
  by (simp add: cascade_defs array_parse fallback_def) (simp add: array_text_def js_def LBRACE_def)

text \<open>
  Claim C4, amended. For every raw text without \<open>{\<close> that is not itself valid JSON and
  whose fenced block, if it has one, does not parse after sanitization, the result is the
  fallback object: no step of the extraction or of the sanitization introduces a brace, so
  neither the brace scan nor the retry between the outer braces has a candidate.
\<close>

theorem c4_no_brace_fallback:
  assumes "LBRACE \<notin> set text"
    and "JSON_parse text = None"
    and "\<forall>c. extractJsonFromText text = Some c \<longrightarrow> JSON_parse (sanitizeJsonString c) = None"
  shows "recover serializes text = fallback text"
proof (cases "extractJsonFromText text")
  case None
  with assms(2) show ?thesis by (simp add: cascade_defs)
next
  case (Some c)
  have "LBRACE \<notin> set c" using extract_set [OF Some] assms(1) by blast
  then have "LBRACE \<notin> set (sanitizeJsonString c)"
    using set_sanitize [of c] by (auto simp: char_defs)
  then have "outer_braces (sanitizeJsonString c) = None" by (rule outer_braces_no_brace)
  with Some assms show ?thesis by (simp add: cascade_defs)
qed

lemma no_brace_parse: "JSON_parse no_brace_text = None"
  by (simp add: no_brace_text_def parse_defs)

lemma no_brace_extract:
  "extractJsonFromText no_brace_text = Some (js ''Day 1: Rome, Day 2: Ostia'')"
  by (simp add: no_brace_text_def extract_defs)

lemma no_brace_sanitize:
  "sanitizeJsonString (js ''Day 1: Rome, Day 2: Ostia'') = js ''Day 1: Rome, Day 2: Ostia''"
  by (simp add: sanitize_defs)

lemma no_brace_reparse: "JSON_parse (js ''Day 1: Rome, Day 2: Ostia'') = None"
  by (simp add: parse_defs)

theorem c4_no_brace_fallback_witness:
  "LBRACE \<notin> set no_brace_text
   \<and> JSON_parse no_brace_text = None
   \<and> extractJsonFromText no_brace_text = Some (js ''Day 1: Rome, Day 2: Ostia'')
   \<and> JSON_parse (sanitizeJsonString (js ''Day 1: Rome, Day 2: Ostia'')) = None
   \<and> recover every_value no_brace_text = fallback no_brace_text"
proof -
  have h1: "LBRACE \<notin> set no_brace_text"
    by (simp add: no_brace_text_def js_def LBRACE_def)
  have h3: "\<forall>c. extractJsonFromText no_brace_text = Some c \<longrightarrow> JSON_parse (sanitizeJsonString c) = None"
    by (simp add: no_brace_extract no_brace_sanitize no_brace_reparse)
  from c4_no_brace_fallback [OF h1 no_brace_parse h3, of every_value] h1 no_brace_parse
  show ?thesis
    by (simp add: no_brace_extract no_brace_sanitize no_brace_reparse)
qed

section \<open>Braces inside strings\<close>

lemma scan_step_in_string:
  "ch \<noteq> DQUOTE \<Longrightarrow> scan_step (depth, True, lastChar) ch = (depth, True, Some ch)"
  by (simp add: scan_step_def)

lemma comma_brace_parse: "JSON_parse comma_brace_text = Some comma_brace_value"
  by (simp add: comma_brace_text_def comma_brace_body_def comma_brace_value_def parse_defs char_defs)

lemma prose_comma_brace_parse: "JSON_parse prose_comma_brace_text = None"
  by (simp add: prose_comma_brace_text_def comma_brace_text_def comma_brace_body_def parse_defs char_defs)

lemma prose_comma_brace_extract: "extractJsonFromText prose_comma_brace_text = Some comma_brace_text"
  by (simp add: prose_comma_brace_text_def comma_brace_text_def comma_brace_body_def extract_defs)

lemma comma_brace_sanitize:
  \<open>sanitizeJsonString comma_brace_text = js ''{"itinerary":"Visit { Old Town}","places":[]}''\<close>
  by (simp add: comma_brace_text_def comma_brace_body_def sanitize_defs)

lemma comma_brace_reparse:
  \<open>JSON_parse (js ''{"itinerary":"Visit { Old Town}","places":[]}'') = Some comma_brace_repaired\<close>
  by (simp add: comma_brace_repaired_def parse_defs)

lemma comma_brace_nonempty: "comma_brace_text \<noteq> []"
  by (simp add: comma_brace_text_def)

text \<open>
  Claim C5, as stated, fails: the scan ends at the closing brace of the object, but the
  cascade parses the sanitized candidate, and the sanitizer removes the comma before the
  brace inside the string. After the prose \<open>Plan: \<close>, the object with the itinerary
  \<open>Visit { Old Town, }\<close> is returned with the itinerary \<open>Visit { Old Town}\<close>.
\<close>

theorem c5_counterexample:
  "quoted_braces_only False comma_brace_body
   \<and> JSON_parse comma_brace_text = Some comma_brace_value
   \<and> extractJsonFromText prose_comma_brace_text = Some comma_brace_text
   \<and> recover every_value prose_comma_brace_text = comma_brace_repaired
   \<and> comma_brace_repaired \<noteq> comma_brace_value"
  by (simp add: cascade_defs comma_brace_parse prose_comma_brace_parse prose_comma_brace_extract
      comma_brace_nonempty comma_brace_sanitize comma_brace_reparse)
     (simp add: comma_brace_repaired_def comma_brace_value_def comma_brace_body_def js_def
        char_defs next_not_quote_def)

text \<open>
  Claim C5, amended. In a string, a character other than the quote leaves the depth and
  the string mode as they are. For every raw text in which no fence yields a candidate and
  whose first \<open>{\<close> opens an object whose braces outside its double-quoted strings balance
  (none at all, when the braces are inside the strings only), the scan ends at the brace
  that closes the object and the candidate is the text of that object, whatever stands
  before and after it. The strings may hold escapes; the one text left out is an escaped
  backslash right before a quote. The cascade returns the parse of the raw text when the
  raw text is valid JSON and its value is serialized (so the object itself, when the raw
  text is the object alone); otherwise it returns the object unmodified when the sanitized
  candidate still parses to the same value and that value is serialized. The candidate is
  sanitized before it is parsed, inside its strings too.
\<close>

theorem c5_braces_in_strings:
  assumes "LBRACE \<notin> set pre" and "balanced 0 False body"
    and "\<not> truthy_group (fencedJson (pre @ LBRACE # body @ RBRACE # post))"
    and "\<not> truthy_group (fencedAny (pre @ LBRACE # body @ RBRACE # post))"
  shows "(ch \<noteq> DQUOTE \<longrightarrow> scan_step (depth, True, lastChar) ch = (depth, True, Some ch))
    \<and> (quoted_braces_only False inner \<longrightarrow> balanced 0 False inner)
    \<and> brace_scan (pre @ LBRACE # body @ RBRACE # post) = Some (LBRACE # body @ [RBRACE])
    \<and> extractJsonFromText (pre @ LBRACE # body @ RBRACE # post) = Some (LBRACE # body @ [RBRACE])
    \<and> (JSON_parse (LBRACE # body @ [RBRACE]) = Some v
        \<and> JSON_parse (sanitizeJsonString (LBRACE # body @ [RBRACE])) = Some v
        \<and> serializes v
       \<longrightarrow> recover serializes (pre @ LBRACE # body @ RBRACE # post)
            = (case attempt serializes (pre @ LBRACE # body @ RBRACE # post) of
                 Some w \<Rightarrow> w
               | None \<Rightarrow> v))"
proof -
  let ?raw = "pre @ LBRACE # body @ RBRACE # post"
  let ?t = "LBRACE # body @ [RBRACE]"
  have a: "ch \<noteq> DQUOTE \<longrightarrow> scan_step (depth, True, lastChar) ch = (depth, True, Some ch)"
    using scan_step_in_string [of ch depth lastChar] by blast
  have b: "quoted_braces_only False inner \<longrightarrow> balanced 0 False inner"
    using quoted_balanced [of False inner] by blast
  have c: "brace_scan ?raw = Some ?t"
    using assms(1) assms(2) by (rule brace_scan_object)
  have d: "extractJsonFromText ?raw = Some ?t"
    using assms by (rule extract_object)
  have e: "recover serializes ?raw = (case attempt serializes ?raw of Some w \<Rightarrow> w | None \<Rightarrow> v)"
    if q: "JSON_parse (sanitizeJsonString ?t) = Some v" and s: "serializes v"
  proof (cases "attempt serializes ?raw")
    case None
    from recover_candidate [OF None d q s] None show ?thesis by simp
  next
    case (Some w)
    from recover_direct [OF Some] Some show ?thesis by simp
  qed
  from a b c d e show ?thesis by blast
qed

lemma old_town_parse: "JSON_parse old_town_text = Some old_town_value"
  by (simp add: old_town_text_def old_town_body_def old_town_value_def parse_defs char_defs)

lemma old_town_sanitize: "sanitizeJsonString old_town_text = old_town_text"
  by (simp add: old_town_text_def old_town_body_def sanitize_defs)

lemma old_town_balanced: "quoted_braces_only False old_town_body \<and> balanced 0 False old_town_body"
  by (simp add: old_town_body_def js_def char_defs next_not_quote_def)

lemma old_town_no_fence:
  "\<not> truthy_group (fencedJson old_town_text) \<and> \<not> truthy_group (fencedAny old_town_text)"
  by (simp add: old_town_text_def old_town_body_def extract_defs)

lemma escape_parse: "JSON_parse escape_text = Some escape_value"
  by (simp add: escape_text_def escape_body_def escape_value_def parse_defs char_defs)

lemma escape_sanitize: "sanitizeJsonString escape_text = escape_text"
  by (simp add: escape_text_def escape_body_def sanitize_defs)

lemma prose_escape_parse: "JSON_parse prose_escape_text = None"
  by (simp add: prose_escape_text_def escape_text_def escape_body_def parse_defs char_defs)

lemma escape_balanced: "quoted_braces_only False escape_body \<and> balanced 0 False escape_body"
  by (simp add: escape_body_def js_def char_defs next_not_quote_def)

lemma prose_escape_no_fence:
  "\<not> truthy_group (fencedJson prose_escape_text) \<and> \<not> truthy_group (fencedAny prose_escape_text)"
  by (simp add: prose_escape_text_def escape_text_def escape_body_def extract_defs)

theorem c5_braces_in_strings_witness:
  "LBRACE \<notin> set (js ''Plan: '')
   \<and> balanced 0 False escape_body
   \<and> BACKSLASH \<in> set escape_body
   \<and> \<not> truthy_group (fencedJson prose_escape_text)
   \<and> \<not> truthy_group (fencedAny prose_escape_text)
   \<and> JSON_parse escape_text = Some escape_value
   \<and> extractJsonFromText prose_escape_text = Some escape_text
   \<and> recover every_value prose_escape_text = escape_value
   \<and> balanced 0 False old_town_body
   \<and> recover every_value old_town_text = old_town_value"
proof -
  have h1: "LBRACE \<notin> set (js ''Plan: '')" by (simp add: js_def char_defs)
  have h2: "balanced 0 False escape_body" using escape_balanced by simp
  have bs: "BACKSLASH \<in> set escape_body" by (simp add: escape_body_def)
  have r: "prose_escape_text = js ''Plan: '' @ LBRACE # escape_body @ RBRACE # []"
    by (simp add: prose_escape_text_def escape_text_def)
  have t: "escape_text = LBRACE # escape_body @ [RBRACE]" by (simp add: escape_text_def)
  have h3: "\<not> truthy_group (fencedJson (js ''Plan: '' @ LBRACE # escape_body @ RBRACE # []))"
    and h4: "\<not> truthy_group (fencedAny (js ''Plan: '' @ LBRACE # escape_body @ RBRACE # []))"
    using prose_escape_no_fence unfolding r by blast+
  have p: "JSON_parse (LBRACE # escape_body @ [RBRACE]) = Some escape_value"
    and q: "JSON_parse (sanitizeJsonString (LBRACE # escape_body @ [RBRACE])) = Some escape_value"
    using escape_parse escape_sanitize by (simp_all add: t)
  have s: "every_value escape_value" by (simp add: every_value_def)
  have n: "attempt every_value (js ''Plan: '' @ LBRACE # escape_body @ RBRACE # []) = None"
    using prose_escape_parse by (simp add: attempt_def r)
  from c5_braces_in_strings [OF h1 h2 h3 h4, of DQUOTE 0 None "[]" escape_value every_value] p q s n
  have a: "extractJsonFromText prose_escape_text = Some escape_text"
    and b: "recover every_value prose_escape_text = escape_value"
    by (simp_all add: r t)
  have g1: "LBRACE \<notin> set ([]::jstring)" by simp
  have g2: "balanced 0 False old_town_body" using old_town_balanced by simp
  have o: "old_town_text = [] @ LBRACE # old_town_body @ RBRACE # []"
    by (simp add: old_town_text_def)
  have g3: "\<not> truthy_group (fencedJson ([] @ LBRACE # old_town_body @ RBRACE # []))"
    and g4: "\<not> truthy_group (fencedAny ([] @ LBRACE # old_town_body @ RBRACE # []))"
    using old_town_no_fence unfolding o by blast+
  have p2: "JSON_parse (LBRACE # old_town_body @ [RBRACE]) = Some old_town_value"
    and q2: "JSON_parse (sanitizeJsonString (LBRACE # old_town_body @ [RBRACE])) = Some old_town_value"
    using old_town_parse old_town_sanitize by (simp_all add: old_town_text_def)
  have s2: "every_value old_town_value" by (simp add: every_value_def)
  have n2: "attempt every_value ([] @ LBRACE # old_town_body @ RBRACE # []) = Some old_town_value"
    using old_town_parse by (simp add: attempt_def every_value_def old_town_text_def)
  from c5_braces_in_strings [OF g1 g2 g3 g4, of DQUOTE 0 None "[]" old_town_value every_value]
    p2 q2 s2 n2
  have c: "recover every_value old_town_text = old_town_value"
    by (simp add: old_town_text_def)
  from h1 h2 bs prose_escape_no_fence escape_parse a b g2 c show ?thesis by simp
qed
section \<open>A quote after an escaped backslash\<close>

lemma backslash_object_parse: "JSON_parse backslash_object_text = Some backslash_value"
  by (simp add: backslash_object_text_def backslash_value_def parse_defs BACKSLASH_def)

lemma escaped_backslash_parse: "JSON_parse escaped_backslash_text = None"
  by (simp add: escaped_backslash_text_def backslash_object_text_def parse_defs BACKSLASH_def)

lemma escaped_backslash_scan: "brace_scan escaped_backslash_text = None"
  by (simp add: escaped_backslash_text_def backslash_object_text_def extract_defs)

lemma escaped_backslash_extract: "extractJsonFromText escaped_backslash_text = None"
  by (simp add: escaped_backslash_text_def backslash_object_text_def extract_defs)

text \<open>
  Claim C6 describes the escaping of JSON; the scan of the source tests only the character
  before the quote (\<open>lastChar !== '\\'\<close>), so the quote that closes a string ending in an
  escaped backslash does not toggle \<open>inString\<close>: after the colon of \<open>"C:\\"\<close>, in a
  string, the three characters backslash, backslash, quote leave the scan in the string.
  For the completion \<open>Result: {"itinerary":"C:\\","places":[]}\<close> the object is valid
  JSON, the scan runs to the end of the text without a candidate, and the cascade returns
  the fallback object.
\<close>

theorem c6_escaped_backslash_quote:
  "foldl scan_step (1, True, Some COLON) [BACKSLASH, BACKSLASH, DQUOTE] = (1, True, Some DQUOTE)
   \<and> JSON_parse backslash_object_text = Some backslash_value
   \<and> brace_scan escaped_backslash_text = None
   \<and> recover serializes escaped_backslash_text = fallback escaped_backslash_text"
  by (simp add: cascade_defs backslash_object_parse escaped_backslash_parse escaped_backslash_scan
      escaped_backslash_extract) (simp add: scan_step_def char_defs)

section \<open>Trailing commas\<close>

lemma x_parse: "JSON_parse x_text = Some x_value"
  by (simp add: x_text_def x_value_def parse_defs)

lemma trailing_comma_parse: "JSON_parse trailing_comma_text = None"
  by (simp add: trailing_comma_text_def parse_defs)

lemma trailing_comma_extract: "extractJsonFromText trailing_comma_text = Some trailing_comma_text"
  by (simp add: trailing_comma_text_def extract_defs)

lemma trailing_comma_sanitize: "sanitizeJsonString trailing_comma_text = x_text"
  by (simp add: trailing_comma_text_def x_text_def sanitize_defs)

lemma trailing_comma_nonempty: "trailing_comma_text \<noteq> []"
  by (simp add: trailing_comma_text_def js_def)

lemma trailing_comma_recover: "recover every_value trailing_comma_text = x_value"
  by (simp add: cascade_defs trailing_comma_parse trailing_comma_extract trailing_comma_nonempty
      trailing_comma_sanitize x_parse)

lemma url_comma_parse: "JSON_parse url_comma_text = None"
  by (simp add: url_comma_text_def parse_defs)

lemma url_comma_repaired:
  "JSON_parse (remove_trailing_commas url_comma_text) = Some url_value"
  by (simp add: url_comma_text_def url_value_def parse_defs sanitize_defs)

lemma url_comma_extract: "extractJsonFromText url_comma_text = Some url_comma_text"
  by (simp add: url_comma_text_def extract_defs)

lemma url_comma_sanitize: "sanitizeJsonString url_comma_text = url_sanitized"
  by (simp add: url_comma_text_def url_sanitized_def sanitize_defs)

lemma url_comma_sanitized_parse: "JSON_parse url_sanitized = None"
  by (simp add: url_sanitized_def parse_defs)

lemma url_comma_outer: "outer_braces url_sanitized = None"
  by (simp add: url_sanitized_def outer_braces_def js_def char_defs)

lemma url_comma_nonempty: "url_comma_text \<noteq> []"
  by (simp add: url_comma_text_def js_def)

text \<open>
  Claim C7, as stated, fails in its second half: the comma is removed, but the sanitizer
  also deletes what it reads as a comment. The object \<open>{"image":"//cdn.example.com/a.png",}\<close>
  is valid but for the comma before its closing brace; the sanitizer cuts it at the \<open>//\<close>
  of the URL, nothing parses, and the cascade returns the fallback object.
\<close>

theorem c7_counterexample:
  "JSON_parse url_comma_text = None
   \<and> JSON_parse (remove_trailing_commas url_comma_text) = Some url_value
   \<and> sanitizeJsonString url_comma_text = url_sanitized
   \<and> recover every_value url_comma_text = fallback url_comma_text"
  by (simp add: cascade_defs url_comma_parse url_comma_repaired url_comma_extract
      url_comma_nonempty url_comma_sanitize url_comma_sanitized_parse url_comma_outer)

text \<open>
  The replacement is one pass over the text: of two commas before a brace the second is
  followed by the brace and is deleted, the first is followed by a comma and stays.
\<close>

lemma remove_trailing_commas_once:
  \<open>remove_trailing_commas (js ''[1,,]'') = js ''[1,]''\<close>
  by (simp add: sanitize_defs)

lemma comma_step:
  "list_all is_space ws \<and> (b = RBRACE \<or> b = RBRACKET) \<longrightarrow>
   remove_trailing_commas (before @ COMMA # ws @ b # rest)
     = remove_trailing_commas before @ b # remove_trailing_commas rest"
  using remove_trailing_commas_at [of ws b before rest] by blast

lemma comma_sanitize:
  "list_all is_space ws \<and> (b = RBRACE \<or> b = RBRACKET)
     \<and> BACKTICK \<notin> set (before @ rest) \<and> SLASH \<notin> set (before @ rest) \<longrightarrow>
   sanitizeJsonString (before @ COMMA # ws @ b # rest)
     = trim (remove_trailing_commas (map straighten_quote (trim_start before))
             @ b # remove_trailing_commas (map straighten_quote (trim_end rest)))"
  using sanitize_trailing_comma [of ws b before rest] by blast

lemma comma_pipeline:
  "split_at FENCE (pre @ LBRACE # body @ RBRACE # post) = None
     \<and> LBRACE \<notin> set pre
     \<and> \<not> block_comment (LBRACE # body @ [RBRACE])
     \<and> \<not> unprotected_comment (LBRACE # body @ [RBRACE])
     \<and> no_curly (LBRACE # body @ [RBRACE])
     \<and> balanced 0 False body
     \<and> JSON_parse (pre @ LBRACE # body @ RBRACE # post) = None
     \<and> JSON_parse (remove_trailing_commas (LBRACE # body @ [RBRACE])) = Some v
     \<and> serializes v \<longrightarrow>
   sanitizeJsonString (LBRACE # body @ [RBRACE]) = remove_trailing_commas (LBRACE # body @ [RBRACE])
   \<and> recover serializes (pre @ LBRACE # body @ RBRACE # post) = v"
proof
  let ?t = "LBRACE # body @ [RBRACE]"
  assume h: "split_at FENCE (pre @ LBRACE # body @ RBRACE # post) = None
     \<and> LBRACE \<notin> set pre
     \<and> \<not> block_comment ?t
     \<and> \<not> unprotected_comment ?t
     \<and> no_curly ?t
     \<and> balanced 0 False body
     \<and> JSON_parse (pre @ LBRACE # body @ RBRACE # post) = None
     \<and> JSON_parse (remove_trailing_commas ?t) = Some v
     \<and> serializes v"
  then have m: "map straighten_quote ?t = ?t" using map_straighten_id by blast
  from h have p: "JSON_parse (remove_trailing_commas (map straighten_quote ?t)) = Some v"
    by (simp only: m)
  from h have "sanitizeJsonString ?t = remove_trailing_commas (map straighten_quote ?t)
         \<and> recover serializes (pre @ LBRACE # body @ RBRACE # post) = v"
    using recover_embedded_object [of pre body post v serializes] p by blast
  then show "sanitizeJsonString ?t = remove_trailing_commas ?t
         \<and> recover serializes (pre @ LBRACE # body @ RBRACE # post) = v"
    by (simp only: m)
qed

text \<open>
  Claim C7, amended. The last replacement of the sanitizer deletes every comma that is
  followed, after any white space, by a closing brace or bracket, together with that white
  space: wherever such a comma stands, the text before it and the text after the brace or
  bracket are repaired on their own. So does the sanitizer as a whole on a candidate
  without backtick and slash, where only the quotes and the ends of the candidate change
  besides. For every raw text without a fence whose first \<open>{\<close> opens an object that has
  balanced braces, no curly quotation mark and nothing the sanitizer reads as a comment
  (no \<open>/*\<close> with a \<open>*/\<close> after it, no \<open>//\<close> after a character other than the colon and
  the backslash): when the raw text does not parse and the object with its trailing commas
  removed parses to a value that is serialized, the sanitizer yields the object without
  the commas and the cascade returns that value. For the spec's example the cascade
  returns \<open>{itinerary: "X", places: []}\<close>.
\<close>

theorem c7_trailing_commas:
  "(list_all is_space ws \<and> (b = RBRACE \<or> b = RBRACKET) \<longrightarrow>
      remove_trailing_commas (before @ COMMA # ws @ b # rest)
        = remove_trailing_commas before @ b # remove_trailing_commas rest)
   \<and> (list_all is_space ws \<and> (b = RBRACE \<or> b = RBRACKET)
        \<and> BACKTICK \<notin> set (before @ rest) \<and> SLASH \<notin> set (before @ rest) \<longrightarrow>
      sanitizeJsonString (before @ COMMA # ws @ b # rest)
        = trim (remove_trailing_commas (map straighten_quote (trim_start before))
                @ b # remove_trailing_commas (map straighten_quote (trim_end rest))))
   \<and> (split_at FENCE (pre @ LBRACE # body @ RBRACE # post) = None
        \<and> LBRACE \<notin> set pre
        \<and> \<not> block_comment (LBRACE # body @ [RBRACE])
        \<and> \<not> unprotected_comment (LBRACE # body @ [RBRACE])
        \<and> no_curly (LBRACE # body @ [RBRACE])
        \<and> balanced 0 False body
        \<and> JSON_parse (pre @ LBRACE # body @ RBRACE # post) = None
        \<and> JSON_parse (remove_trailing_commas (LBRACE # body @ [RBRACE])) = Some v
        \<and> serializes v \<longrightarrow>
      sanitizeJsonString (LBRACE # body @ [RBRACE]) = remove_trailing_commas (LBRACE # body @ [RBRACE])
      \<and> recover serializes (pre @ LBRACE # body @ RBRACE # post) = v)
   \<and> sanitizeJsonString trailing_comma_text = x_text
   \<and> recover every_value trailing_comma_text = x_value"
  by (intro conjI)
     (rule comma_step, rule comma_sanitize, rule comma_pipeline, rule trailing_comma_sanitize,
      rule trailing_comma_recover)

theorem c7_trailing_commas_witness:
  \<open>remove_trailing_commas (js ''{"places":[1, 2,  ]'' @ COMMA # js ''\<newline>'' @ RBRACE # [])
     = js ''{"places":[1, 2]}''
   \<and> sanitizeJsonString (js ''{"places":[1, 2,  ]'' @ COMMA # js ''\<newline>'' @ RBRACE # [])
     = js ''{"places":[1, 2]}''
   \<and> split_at FENCE (js ''Plan: '' @ LBRACE # trailing_comma_body @ RBRACE # js ''\<newline>'') = None
   \<and> balanced 0 False trailing_comma_body
   \<and> JSON_parse (js ''Plan: '' @ LBRACE # trailing_comma_body @ RBRACE # js ''\<newline>'') = None
   \<and> JSON_parse (remove_trailing_commas (LBRACE # trailing_comma_body @ [RBRACE])) = Some x_value
   \<and> recover every_value (js ''Plan: '' @ LBRACE # trailing_comma_body @ RBRACE # js ''\<newline>'')
     = x_value\<close>
proof -
  note t = c7_trailing_commas [where ws = "js ''\<newline>''" and b = RBRACE
      and before = \<open>js ''{"places":[1, 2,  ]''\<close> and rest = "[]" and pre = "js ''Plan: ''"
      and body = trailing_comma_body and post = "js ''\<newline>''" and v = x_value
      and serializes = every_value]
  have w: "list_all is_space (js ''\<newline>'') \<and> (RBRACE = RBRACE \<or> RBRACE = RBRACKET)"
    by (simp add: js_def is_space_def)
  have n: \<open>BACKTICK \<notin> set (js ''{"places":[1, 2,  ]'' @ []) \<and> SLASH \<notin> set (js ''{"places":[1, 2,  ]'' @ [])\<close>
    by (simp add: js_def char_defs)
  have pre: \<open>remove_trailing_commas (js ''{"places":[1, 2,  ]'') = js ''{"places":[1, 2]''\<close>
    by (simp add: sanitize_defs)
  have pre2: \<open>remove_trailing_commas (map straighten_quote (trim_start (js ''{"places":[1, 2,  ]'')))
               = js ''{"places":[1, 2]''\<close>
    by (simp add: sanitize_defs straighten_quote_def)
  have tr: \<open>trim (js ''{"places":[1, 2]'' @ RBRACE # []) = js ''{"places":[1, 2]}''\<close>
    by (simp add: sanitize_defs)
  from t w n
  have \<open>remove_trailing_commas (js ''{"places":[1, 2,  ]'' @ COMMA # js ''\<newline>'' @ RBRACE # [])
          = remove_trailing_commas (js ''{"places":[1, 2,  ]'') @ RBRACE # remove_trailing_commas []\<close>
    and \<open>sanitizeJsonString (js ''{"places":[1, 2,  ]'' @ COMMA # js ''\<newline>'' @ RBRACE # [])
          = trim (remove_trailing_commas (map straighten_quote (trim_start (js ''{"places":[1, 2,  ]'')))
                  @ RBRACE # remove_trailing_commas (map straighten_quote (trim_end [])))\<close>
    by blast+
  with pre pre2 tr
  have c1: \<open>remove_trailing_commas (js ''{"places":[1, 2,  ]'' @ COMMA # js ''\<newline>'' @ RBRACE # [])
     = js ''{"places":[1, 2]}''
   \<and> sanitizeJsonString (js ''{"places":[1, 2,  ]'' @ COMMA # js ''\<newline>'' @ RBRACE # [])
     = js ''{"places":[1, 2]}''\<close>
    by (simp add: trim_end_def) (simp add: js_def char_defs)
  have f: "split_at FENCE (js ''Plan: '' @ LBRACE # trailing_comma_body @ RBRACE # js ''\<newline>'') = None"
    by (simp add: trailing_comma_body_def js_def char_defs)
  have l: "LBRACE \<notin> set (js ''Plan: '')" by (simp add: js_def char_defs)
  have bc: "\<not> block_comment (LBRACE # trailing_comma_body @ [RBRACE])"
    by (simp add: trailing_comma_body_def js_def char_defs)
  have uc: "\<not> unprotected_comment (LBRACE # trailing_comma_body @ [RBRACE])"
    by (simp add: trailing_comma_body_def js_def char_defs)
  have nc: "no_curly (LBRACE # trailing_comma_body @ [RBRACE])"
    by (simp add: no_curly_def trailing_comma_body_def js_def char_defs)
  have bal: "balanced 0 False trailing_comma_body"
    by (simp add: trailing_comma_body_def js_def char_defs next_not_quote_def)
  have raw: "JSON_parse (js ''Plan: '' @ LBRACE # trailing_comma_body @ RBRACE # js ''\<newline>'') = None"
    by (simp add: trailing_comma_body_def parse_defs char_defs)
  have rep: "JSON_parse (remove_trailing_commas (LBRACE # trailing_comma_body @ [RBRACE])) = Some x_value"
    by (simp add: trailing_comma_body_def x_value_def parse_defs sanitize_defs)
  have s: "every_value x_value" by (simp add: every_value_def)
  from t f l bc uc nc bal raw rep s
  have c2: "recover every_value (js ''Plan: '' @ LBRACE # trailing_comma_body @ RBRACE # js ''\<newline>'')
     = x_value"
    by blast
  from c1 f bal raw rep c2 show ?thesis by blast
qed
section \<open>Curly quotation marks\<close>

lemma curly_double_parse: "JSON_parse curly_double_text = None"
  by (simp add: curly_double_text_def parse_defs char_defs)

lemma curly_double_extract: "extractJsonFromText curly_double_text = Some curly_double_text"
  by (simp add: curly_double_text_def extract_defs)

lemma curly_double_sanitize: "sanitizeJsonString curly_double_text = x_text"
  by (simp add: curly_double_text_def x_text_def sanitize_defs)

lemma curly_double_nonempty: "curly_double_text \<noteq> []"
  by (simp add: curly_double_text_def)

lemma curly_double_value: "JSON_parse x_text = Some x_value"
  by (simp add: x_text_def x_value_def parse_defs)

lemma curly_double_recover: "recover every_value curly_double_text = x_value"
  by (simp add: cascade_defs curly_double_parse curly_double_extract curly_double_nonempty
      curly_double_sanitize curly_double_value)

lemma curly_single_parse: "JSON_parse curly_single_text = None"
  by (simp add: curly_single_text_def parse_defs char_defs)

lemma curly_single_extract: "extractJsonFromText curly_single_text = Some curly_single_text"
  by (simp add: curly_single_text_def extract_defs)

lemma curly_single_sanitize: "sanitizeJsonString curly_single_text = apostrophe_text"
  by (simp add: curly_single_text_def apostrophe_text_def sanitize_defs)

lemma apostrophe_parse: "JSON_parse apostrophe_text = None"
  by (simp add: apostrophe_text_def parse_defs char_defs)

lemma apostrophe_outer: "outer_braces apostrophe_text = Some apostrophe_text"
  by (simp add: apostrophe_text_def outer_braces_def slice_def js_def char_defs)

lemma curly_single_nonempty: "curly_single_text \<noteq> []"
  by (simp add: curly_single_text_def)

lemma curly_single_recover: "recover every_value curly_single_text = fallback curly_single_text"
  by (simp add: cascade_defs curly_single_parse curly_single_extract curly_single_nonempty
      curly_single_sanitize apostrophe_parse apostrophe_outer)

lemma curly_brace_straight: "map straighten_quote curly_brace_text = straight_brace_text"
  by (simp add: curly_brace_text_def straight_brace_text_def straighten_quote_def js_def char_defs)

lemma straight_brace_parse: "JSON_parse straight_brace_text = Some straight_brace_value"
  by (simp add: straight_brace_text_def straight_brace_value_def parse_defs)

lemma curly_brace_parse: "JSON_parse curly_brace_text = None"
  by (simp add: curly_brace_text_def parse_defs char_defs)

lemma curly_brace_extract: "extractJsonFromText curly_brace_text = Some curly_brace_candidate"
  by (simp add: curly_brace_text_def curly_brace_candidate_def extract_defs)

lemma curly_brace_sanitize: "sanitizeJsonString curly_brace_candidate = curly_brace_sanitized"
  by (simp add: curly_brace_candidate_def curly_brace_sanitized_def sanitize_defs)

lemma curly_brace_cut_parse: "JSON_parse curly_brace_sanitized = None"
  by (simp add: curly_brace_sanitized_def parse_defs)

lemma curly_brace_outer: "outer_braces curly_brace_sanitized = Some curly_brace_sanitized"
  by (simp add: curly_brace_sanitized_def outer_braces_def slice_def js_def char_defs)

lemma curly_brace_nonempty: "curly_brace_candidate \<noteq> []"
  by (simp add: curly_brace_candidate_def)

lemma curly_brace_recover: "recover every_value curly_brace_text = fallback curly_brace_text"
  by (simp add: cascade_defs curly_brace_parse curly_brace_extract curly_brace_nonempty
      curly_brace_sanitize curly_brace_cut_parse curly_brace_outer)

text \<open>
  Claim C8, as stated, fails twice. The sanitizer replaces the curly single quotes by
  apostrophes, and \<open>JSON.parse\<close> accepts no string between apostrophes: the spec's
  object written with curly single quotes ends in the fallback object. And the candidate
  is cut out of the raw text before the quotes are replaced, by a scan that knows the
  straight double quote only: in an object written with curly double quotes whose string
  holds a closing brace the scan stops at that brace, and the cascade returns the fallback
  object although the text with its quotes straightened is valid JSON.
\<close>

theorem c8_counterexample:
  "sanitizeJsonString curly_single_text = apostrophe_text
   \<and> JSON_parse apostrophe_text = None
   \<and> recover every_value curly_single_text = fallback curly_single_text
   \<and> JSON_parse (map straighten_quote curly_brace_text) = Some straight_brace_value
   \<and> recover every_value curly_brace_text = fallback curly_brace_text"
  by (simp add: curly_single_sanitize apostrophe_parse curly_single_recover curly_brace_straight
      straight_brace_parse curly_brace_recover)

lemma dropWhile_keeps: "x \<in> set s \<Longrightarrow> \<not> P x \<Longrightarrow> x \<in> set (dropWhile P s)"
  by (induction s) auto

lemma lex_foreign_char:
  "x \<in> set s \<Longrightarrow> x = SQUOTE \<or> 127 < x \<Longrightarrow> DQUOTE \<notin> set s \<Longrightarrow> lex s = None"
proof (induction s rule: length_induct)
  case (1 s)
  from "1.prems"(2) have x: "\<not> is_json_ws x" "x \<noteq> 123" "x \<noteq> 125" "x \<noteq> 91" "x \<noteq> 93"
    "x \<noteq> 58" "x \<noteq> 44" "x \<noteq> 34" "x \<noteq> 45" "\<not> is_digit x" "\<not> is_num_char x"
    "x \<noteq> 116" "x \<noteq> 102" "x \<noteq> 110" "x \<noteq> 114" "x \<noteq> 117" "x \<noteq> 101" "x \<noteq> 97"
    "x \<noteq> 108" "x \<noteq> 115"
    by (auto simp: is_json_ws_def is_digit_def is_num_char_def SQUOTE_def)
  from "1.prems"(1) obtain c cs where s: "s = c # cs" by (cases s) auto
  have ih: "lex p = None" if "length p < length s" "x \<in> set p" "DQUOTE \<notin> set p" for p
    using 1 that by blast
  from "1.prems"(3) s have q: "c \<noteq> 34" "DQUOTE \<notin> set cs" by (auto simp: DQUOTE_def)
  show ?case
  proof (cases "x = c")
    case True
    with x s show ?thesis by simp
  next
    case False
    with "1.prems"(1) s have xs: "x \<in> set cs" by simp
    have h1: "lex cs = None" using ih [of cs] xs q(2) s by simp
    have d: "x \<in> set (dropWhile is_num_char cs)" using xs x(11) by (rule dropWhile_keeps)
    have dq: "DQUOTE \<notin> set (dropWhile is_num_char cs)" using q(2) by (auto dest: set_dropWhileD)
    have "length (dropWhile is_num_char cs) < length s"
      using length_dropWhile_le [of is_num_char cs] s by simp
    from ih [OF this d dq] have h2: "lex (dropWhile is_num_char cs) = None" .
    have q3: "DQUOTE \<notin> set (drop 3 cs)" "DQUOTE \<notin> set (drop 4 cs)"
      using q(2) by (auto dest: in_set_dropD)
    have l3: "length (drop 3 cs) < length s" "length (drop 4 cs) < length s" using s by simp_all
    have h3: "lex (drop 3 cs) = None" if "starts_with [116, 114, 117, 101] (c # cs)"
    proof -
      have "x \<in> set (drop 3 cs)"
        using that xs x by (cases cs; cases "tl cs"; cases "tl (tl cs)") auto
      from ih [OF l3(1) this q3(1)] show ?thesis .
    qed
    have h4: "lex (drop 4 cs) = None" if "starts_with [102, 97, 108, 115, 101] (c # cs)"
    proof -
      have "x \<in> set (drop 4 cs)"
        using that xs x
        by (cases cs; cases "tl cs"; cases "tl (tl cs)"; cases "tl (tl (tl cs))") auto
      from ih [OF l3(2) this q3(2)] show ?thesis .
    qed
    have h5: "lex (drop 3 cs) = None" if "starts_with [110, 117, 108, 108] (c # cs)"
    proof -
      have "x \<in> set (drop 3 cs)"
        using that xs x by (cases cs; cases "tl cs"; cases "tl (tl cs)") auto
      from ih [OF l3(1) this q3(1)] show ?thesis .
    qed
    have "lex (c # cs) = None"
      using h1 h2 h3 h4 h5 q(1)
      by (simp add: cons_token_def del: starts_with.simps)
    with s show ?thesis by simp
  qed
qed

lemma parse_foreign_char:
  "x \<in> set s \<Longrightarrow> x = SQUOTE \<or> 127 < x \<Longrightarrow> DQUOTE \<notin> set s \<Longrightarrow> JSON_parse s = None"
  by (simp add: JSON_parse_def lex_foreign_char)

lemma remove_trailing_commas_keeps:
  "x \<in> set s \<Longrightarrow> x \<noteq> COMMA \<Longrightarrow> \<not> is_space x \<Longrightarrow> x \<in> set (remove_trailing_commas s)"
proof (induction s rule: length_induct)
  case (1 s)
  then obtain c cs where s: "s = c # cs" by (cases s) auto
  have ih: "x \<in> set (remove_trailing_commas p)" if "length p < length s" "x \<in> set p" for p
    using 1 that by blast
  show ?case
  proof (cases "c = COMMA \<and> (\<exists>b rest. trim_start cs = b # rest \<and> (b = RBRACE \<or> b = RBRACKET))")
    case True
    then obtain b rest where tr: "trim_start cs = b # rest" and b: "b = RBRACE \<or> b = RBRACKET"
      by blast
    have r: "remove_trailing_commas s = b # remove_trailing_commas rest"
      using True tr b s by auto
    have "x \<in> set cs" using "1.prems" s True by auto
    then have "x \<in> set (dropWhile is_space cs)" using "1.prems"(3) by (rule dropWhile_keeps)
    then have xb: "x = b \<or> x \<in> set rest" using tr by (simp add: trim_start_def)
    have "length rest < length s" using trim_start_shorter [OF tr] s by simp
    from ih [OF this] xb r show ?thesis by auto
  next
    case False
    then have r: "remove_trailing_commas s = c # remove_trailing_commas cs"
      using s by (auto split: list.splits)
    have "length cs < length s" using s by simp
    from ih [OF this] r "1.prems"(1) s show ?thesis by auto
  qed
qed

lemma lastIndexOf_snoc: "lastIndexOf c (xs @ [c]) = Some (length xs)"
  by (induction xs) auto

lemma outer_braces_whole:
  "outer_braces (LBRACE # ys @ [RBRACE]) = Some (LBRACE # ys @ [RBRACE])"
proof -
  have "lastIndexOf RBRACE ((LBRACE # ys) @ [RBRACE]) = Some (length (LBRACE # ys))"
    by (rule lastIndexOf_snoc)
  then have "lastIndexOf RBRACE (LBRACE # ys @ [RBRACE]) = Some (Suc (length ys))" by simp
  then show ?thesis by (simp add: outer_braces_def slice_def)
qed

lemma sanitize_no_curly: "no_curly (sanitizeJsonString s)"
proof -
  have n: "straighten_quote c \<noteq> LDQUOTE \<and> straighten_quote c \<noteq> RDQUOTE
           \<and> straighten_quote c \<noteq> LSQUOTE \<and> straighten_quote c \<noteq> RSQUOTE" for c
    by (simp add: straighten_quote_def char_defs)
  show ?thesis
  proof (cases "s = []")
    case True
    then show ?thesis by (simp add: sanitizeJsonString_def no_curly_def)
  next
    case False
    let ?m = "map straighten_quote (remove_fences (replace_fence_label (trim s)))"
    have "sanitizeJsonString s
          = trim (remove_trailing_commas (strip_line_comments (strip_block_comments ?m)))"
      using False by (simp add: sanitizeJsonString_def replace_curly_straighten)
    then have "set (sanitizeJsonString s)
               \<subseteq> set (remove_trailing_commas (strip_line_comments (strip_block_comments ?m)))"
      using set_trim by simp
    also have "\<dots> \<subseteq> set (strip_line_comments (strip_block_comments ?m))"
      by (rule set_remove_trailing_commas)
    also have "\<dots> \<subseteq> set (strip_block_comments ?m)" by (rule set_strip_line_comments)
    also have "\<dots> \<subseteq> set ?m" by (rule set_strip_block_comments)
    finally have "\<forall>c \<in> set (sanitizeJsonString s). \<exists>d. c = straighten_quote d" by auto
    with n show ?thesis unfolding no_curly_def by metis
  qed
qed

lemma sanitize_stages:
  "sanitizeJsonString s
   = (if s = [] then []
      else trim (remove_trailing_commas (strip_line_comments (strip_block_comments
             (map straighten_quote (remove_fences (replace_fence_label (trim s))))))))"
  by (simp add: sanitizeJsonString_def replace_curly_straighten)

lemma sanitize_plain:
  "BACKTICK \<notin> set s \<and> SLASH \<notin> set s \<longrightarrow>
   sanitizeJsonString s = trim (remove_trailing_commas (map straighten_quote (trim s)))"
  using sanitize_quotes_only [of s] by blast

lemma curly_pipeline:
  "split_at FENCE (pre @ LBRACE # body @ RBRACE # post) = None
     \<and> LBRACE \<notin> set pre
     \<and> \<not> block_comment (LBRACE # body @ [RBRACE])
     \<and> \<not> unprotected_comment (LBRACE # body @ [RBRACE])
     \<and> balanced 0 False body
     \<and> JSON_parse (pre @ LBRACE # body @ RBRACE # post) = None
     \<and> remove_trailing_commas (map straighten_quote (LBRACE # body @ [RBRACE]))
         = map straighten_quote (LBRACE # body @ [RBRACE])
     \<and> JSON_parse (map straighten_quote (LBRACE # body @ [RBRACE])) = Some v
     \<and> serializes v \<longrightarrow>
   sanitizeJsonString (LBRACE # body @ [RBRACE]) = map straighten_quote (LBRACE # body @ [RBRACE])
   \<and> recover serializes (pre @ LBRACE # body @ RBRACE # post) = v"
proof
  let ?t = "LBRACE # body @ [RBRACE]"
  assume h: "split_at FENCE (pre @ LBRACE # body @ RBRACE # post) = None
     \<and> LBRACE \<notin> set pre
     \<and> \<not> block_comment ?t
     \<and> \<not> unprotected_comment ?t
     \<and> balanced 0 False body
     \<and> JSON_parse (pre @ LBRACE # body @ RBRACE # post) = None
     \<and> remove_trailing_commas (map straighten_quote ?t) = map straighten_quote ?t
     \<and> JSON_parse (map straighten_quote ?t) = Some v
     \<and> serializes v"
  then have m: "remove_trailing_commas (map straighten_quote ?t) = map straighten_quote ?t"
    by blast
  from h have p: "JSON_parse (remove_trailing_commas (map straighten_quote ?t)) = Some v"
    by (simp only: m)
  from h have "sanitizeJsonString ?t = remove_trailing_commas (map straighten_quote ?t)
         \<and> recover serializes (pre @ LBRACE # body @ RBRACE # post) = v"
    using recover_embedded_object [of pre body post v serializes] p by blast
  then show "sanitizeJsonString ?t = map straighten_quote ?t
         \<and> recover serializes (pre @ LBRACE # body @ RBRACE # post) = v"
    by (simp only: m)
qed

lemma recover_apostrophes:
  assumes nf: "split_at FENCE (LBRACE # body @ [RBRACE]) = None"
    and nb: "\<not> block_comment (LBRACE # body @ [RBRACE])"
    and nl: "\<not> unprotected_comment (LBRACE # body @ [RBRACE])"
    and bal: "balanced 0 False body"
    and nd: "DQUOTE \<notin> set body" "LDQUOTE \<notin> set body" "RDQUOTE \<notin> set body"
    and sq: "SQUOTE \<in> set body \<or> LSQUOTE \<in> set body \<or> RSQUOTE \<in> set body"
  shows "recover serializes (LBRACE # body @ [RBRACE]) = fallback (LBRACE # body @ [RBRACE])"
proof -
  let ?t = "LBRACE # body @ [RBRACE]"
  let ?u = "map straighten_quote ?t"
  let ?k = "remove_trailing_commas ?u"
  have dt: "DQUOTE \<notin> set ?t" using nd(1) by (simp add: char_defs)
  have big: "127 < LSQUOTE" "127 < RSQUOTE" by (simp_all add: char_defs)
  from sq big obtain x where xb: "x \<in> set body" and xq: "x = SQUOTE \<or> 127 < x" by blast
  from xb have xt: "x \<in> set ?t" by simp
  have raw: "JSON_parse ?t = None" using xt xq dt by (rule parse_foreign_char)
  have "\<not> truthy_group (fencedJson ([] @ LBRACE # body @ RBRACE # []))"
    "\<not> truthy_group (fencedAny ([] @ LBRACE # body @ RBRACE # []))"
    using no_fence_candidates [OF nf] by (simp_all add: truthy_group_def)
  then have "extractJsonFromText ([] @ LBRACE # body @ RBRACE # []) = Some ?t"
    using extract_object [of "[]" body "[]"] bal by simp
  then have e: "extractJsonFromText ?t = Some ?t" by simp
  have sk: "sanitizeJsonString ?t = ?k" using nf nb nl by (rule sanitize_object)
  have "SQUOTE \<in> set ?u" using sq by (auto simp: straighten_quote_def char_defs image_iff)
  then have a: "SQUOTE \<in> set ?k"
    by (rule remove_trailing_commas_keeps) (simp_all add: is_space_def char_defs)
  have "DQUOTE \<notin> set ?u" using nd by (auto simp: straighten_quote_def char_defs split: if_splits)
  then have d: "DQUOTE \<notin> set ?k" using set_remove_trailing_commas [of ?u] by blast
  have pk: "JSON_parse ?k = None" using a _ d by (rule parse_foreign_char) simp
  have l: "straighten_quote LBRACE = LBRACE" and r: "straighten_quote RBRACE = RBRACE"
    by (simp_all add: straighten_quote_def char_defs)
  have u: "?u = LBRACE # map straighten_quote body @ [RBRACE]" using l r by simp
  obtain ys where ys: "?k = LBRACE # ys @ [RBRACE]"
    by (metis u remove_trailing_commas_braces)
  have o: "outer_braces ?k = Some ?k" by (simp only: ys outer_braces_whole)
  have ne: "?t \<noteq> []" by simp
  show ?thesis
    using raw e sk pk o ne
    by (simp only: recover_def netlify_cascade_def cascade_def attempt_def attempt_events_def
        emit_def option.case if_False fst_conv split_conv)
qed

lemma apostrophe_pipeline:
  "split_at FENCE (LBRACE # body @ [RBRACE]) = None
     \<and> \<not> block_comment (LBRACE # body @ [RBRACE])
     \<and> \<not> unprotected_comment (LBRACE # body @ [RBRACE])
     \<and> balanced 0 False body
     \<and> DQUOTE \<notin> set body \<and> LDQUOTE \<notin> set body \<and> RDQUOTE \<notin> set body
     \<and> (SQUOTE \<in> set body \<or> LSQUOTE \<in> set body \<or> RSQUOTE \<in> set body) \<longrightarrow>
   recover serializes (LBRACE # body @ [RBRACE]) = fallback (LBRACE # body @ [RBRACE])"
  using recover_apostrophes [of body serializes] by blast

text \<open>
  Claim C8, amended. For every candidate the sanitizer replaces each curly double quote by
  the straight double quote and each curly single quote by the apostrophe, after the
  fences are removed and before the comments and the trailing commas are; no curly
  quotation mark is left in its result. The candidate is cut out of the raw text before
  that, with the straight double quote as the only string delimiter. For every raw text
  without a fence whose first \<open>{\<close> opens an object that has balanced braces as the scan
  counts them and nothing the sanitizer reads as a comment: when the raw text does not
  parse and the object with its quotes straightened has no comma before a closing brace or
  bracket and parses to a value that is serialized, the sanitizer yields the object with
  straight quotes and the cascade returns that value. For every such object without any
  double quote, straight or curly, that holds an apostrophe or a curly single quote, the
  cascade returns the fallback object: apostrophes delimit no string of JSON. For the
  spec's object written with curly double quotes the cascade returns
  \<open>{itinerary: "X", places: []}\<close>.
\<close>

theorem c8_curly_quotes:
  "no_curly (sanitizeJsonString s)
   \<and> sanitizeJsonString s
       = (if s = [] then []
          else trim (remove_trailing_commas (strip_line_comments (strip_block_comments
                 (map straighten_quote (remove_fences (replace_fence_label (trim s))))))))
   \<and> (BACKTICK \<notin> set s \<and> SLASH \<notin> set s \<longrightarrow>
        sanitizeJsonString s = trim (remove_trailing_commas (map straighten_quote (trim s))))
   \<and> (split_at FENCE (pre @ LBRACE # body @ RBRACE # post) = None
        \<and> LBRACE \<notin> set pre
        \<and> \<not> block_comment (LBRACE # body @ [RBRACE])
        \<and> \<not> unprotected_comment (LBRACE # body @ [RBRACE])
        \<and> balanced 0 False body
        \<and> JSON_parse (pre @ LBRACE # body @ RBRACE # post) = None
        \<and> remove_trailing_commas (map straighten_quote (LBRACE # body @ [RBRACE]))
            = map straighten_quote (LBRACE # body @ [RBRACE])
        \<and> JSON_parse (map straighten_quote (LBRACE # body @ [RBRACE])) = Some v
        \<and> serializes v \<longrightarrow>
      sanitizeJsonString (LBRACE # body @ [RBRACE]) = map straighten_quote (LBRACE # body @ [RBRACE])
      \<and> recover serializes (pre @ LBRACE # body @ RBRACE # post) = v)
   \<and> (split_at FENCE (LBRACE # inner @ [RBRACE]) = None
        \<and> \<not> block_comment (LBRACE # inner @ [RBRACE])
        \<and> \<not> unprotected_comment (LBRACE # inner @ [RBRACE])
        \<and> balanced 0 False inner
        \<and> DQUOTE \<notin> set inner \<and> LDQUOTE \<notin> set inner \<and> RDQUOTE \<notin> set inner
        \<and> (SQUOTE \<in> set inner \<or> LSQUOTE \<in> set inner \<or> RSQUOTE \<in> set inner) \<longrightarrow>
      recover serializes (LBRACE # inner @ [RBRACE]) = fallback (LBRACE # inner @ [RBRACE]))
   \<and> sanitizeJsonString curly_double_text = x_text
   \<and> recover every_value curly_double_text = x_value"
  by (intro conjI)
     (rule sanitize_no_curly, rule sanitize_stages, rule sanitize_plain, rule curly_pipeline,
      rule apostrophe_pipeline, rule curly_double_sanitize, rule curly_double_recover)

theorem c8_curly_quotes_witness:
  "BACKTICK \<notin> set curly_double_text \<and> SLASH \<notin> set curly_double_text
   \<and> trim (remove_trailing_commas (map straighten_quote (trim curly_double_text))) = x_text
   \<and> balanced 0 False curly_double_body
   \<and> JSON_parse (map straighten_quote (LBRACE # curly_double_body @ [RBRACE])) = Some x_value
   \<and> recover every_value (js ''Plan: '' @ LBRACE # curly_double_body @ RBRACE # js ''\<newline>'')
       = x_value
   \<and> balanced 0 False curly_single_body
   \<and> LSQUOTE \<in> set curly_single_body
   \<and> recover every_value (LBRACE # curly_single_body @ [RBRACE])
       = fallback (LBRACE # curly_single_body @ [RBRACE])"
proof -
  note t = c8_curly_quotes [where s = curly_double_text and pre = "js ''Plan: ''"
      and body = curly_double_body and post = "js ''\<newline>''" and v = x_value
      and serializes = every_value and inner = curly_single_body]
  have h: "BACKTICK \<notin> set curly_double_text \<and> SLASH \<notin> set curly_double_text"
    by (simp add: curly_double_text_def js_def char_defs)
  from t h have "sanitizeJsonString curly_double_text
      = trim (remove_trailing_commas (map straighten_quote (trim curly_double_text)))"
    and "sanitizeJsonString curly_double_text = x_text" by blast+
  then have c1: "trim (remove_trailing_commas (map straighten_quote (trim curly_double_text))) = x_text"
    by simp
  have f: "split_at FENCE (js ''Plan: '' @ LBRACE # curly_double_body @ RBRACE # js ''\<newline>'') = None"
    by (simp add: curly_double_body_def js_def char_defs)
  have l: "LBRACE \<notin> set (js ''Plan: '')" by (simp add: js_def char_defs)
  have bc: "\<not> block_comment (LBRACE # curly_double_body @ [RBRACE])"
    by (simp add: curly_double_body_def js_def char_defs)
  have uc: "\<not> unprotected_comment (LBRACE # curly_double_body @ [RBRACE])"
    by (simp add: curly_double_body_def js_def char_defs)
  have bal: "balanced 0 False curly_double_body"
    by (simp add: curly_double_body_def js_def char_defs next_not_quote_def)
  have raw: "JSON_parse (js ''Plan: '' @ LBRACE # curly_double_body @ RBRACE # js ''\<newline>'') = None"
    by (simp add: curly_double_body_def parse_defs char_defs)
  have st: "map straighten_quote (LBRACE # curly_double_body @ [RBRACE]) = x_text"
    by (simp add: curly_double_body_def x_text_def straighten_quote_def js_def char_defs)
  have rt: "remove_trailing_commas (map straighten_quote (LBRACE # curly_double_body @ [RBRACE]))
            = map straighten_quote (LBRACE # curly_double_body @ [RBRACE])"
    unfolding st by (simp add: x_text_def sanitize_defs)
  have p: "JSON_parse (map straighten_quote (LBRACE # curly_double_body @ [RBRACE])) = Some x_value"
    unfolding st by (rule curly_double_value)
  have s: "every_value x_value" by (simp add: every_value_def)
  from t f l bc uc bal raw rt p s
  have c2: "recover every_value (js ''Plan: '' @ LBRACE # curly_double_body @ RBRACE # js ''\<newline>'')
       = x_value"
    by blast
  have f2: "split_at FENCE (LBRACE # curly_single_body @ [RBRACE]) = None"
    by (simp add: curly_single_body_def js_def char_defs)
  have bc2: "\<not> block_comment (LBRACE # curly_single_body @ [RBRACE])"
    by (simp add: curly_single_body_def js_def char_defs)
  have uc2: "\<not> unprotected_comment (LBRACE # curly_single_body @ [RBRACE])"
    by (simp add: curly_single_body_def js_def char_defs)
  have bal2: "balanced 0 False curly_single_body"
    by (simp add: curly_single_body_def js_def char_defs next_not_quote_def)
  have nd: "DQUOTE \<notin> set curly_single_body \<and> LDQUOTE \<notin> set curly_single_body
            \<and> RDQUOTE \<notin> set curly_single_body"
    by (simp add: curly_single_body_def js_def char_defs)
  have sq: "LSQUOTE \<in> set curly_single_body" by (simp add: curly_single_body_def)
  from t f2 bc2 uc2 bal2 nd sq
  have c3: "recover every_value (LBRACE # curly_single_body @ [RBRACE])
       = fallback (LBRACE # curly_single_body @ [RBRACE])"
    by blast
  from h c1 bal p c2 bal2 sq c3 show ?thesis by blast
qed
section \<open>A request while the provider is not configured\<close>

text \<open>
  Claim C9, as stated, fails for the serverless function: it tests the method of the
  request before it tests \<open>genAI\<close>, and answers a GET request with the status 405.
\<close>

theorem c9_counterexample:
  "statusCode (fst (netlify_handler None (\<lambda>b. []) every_value get_event)) = 405"
  by (simp add: netlify_handler_def get_event_def js_def)

text \<open>
  Claim C9, amended. When the key is unset or empty, or the constructor of the client
  throws, \<open>genAI\<close> is \<open>null\<close>, and then: the serverless function answers every POST
  request with its response of status 503, and the handler of the server, which is routed
  POST requests only and destructures \<open>req.body\<close> first, answers every request whose
  body is a value other than \<open>null\<close> with its response of status 503. In both the
  list of events is empty: the provider is not called, and nothing is parsed, extracted or
  sanitized.
\<close>

theorem c9_unconfigured_unavailable:
  assumes "key = None \<or> key = Some [] \<or> (\<exists>k. key = Some k \<and> construct k = None)"
  shows "(httpMethod ev = js ''POST'' \<longrightarrow>
            netlify_handler (init_genAI key construct) prompt_of serializes ev
              = (netlify_unavailable, []))
         \<and> (body \<noteq> JNull \<longrightarrow>
            server_handler (init_genAI key construct) prompt_of serializes log_ok (Some body)
              = (server_unavailable, []))"
proof -
  from assms have "init_genAI key construct = None"
    by (auto simp: init_genAI_def)
  then show ?thesis
    by (simp add: netlify_handler_def server_handler_def netlify_unavailable_def
        server_unavailable_def)
qed

theorem c9_unconfigured_unavailable_witness:
  "netlify_handler (init_genAI None (\<lambda>k. Some (\<lambda>p. Some day1_text))) (\<lambda>b. []) every_value
       post_event
     = (netlify_unavailable, [])
   \<and> server_handler (init_genAI None (\<lambda>k. Some (\<lambda>p. Some day1_text))) (\<lambda>b. [])
        every_value True
        (Some (JObject [(js ''destination'', JString (js ''Rome''))]))
     = (server_unavailable, [])"
proof -
  have m: "httpMethod post_event = js ''POST''"
    by (simp add: post_event_def)
  have b: "JObject [(js ''destination'', JString (js ''Rome''))] \<noteq> JNull"
    by simp
  from c9_unconfigured_unavailable
    [of None "\<lambda>k. Some (\<lambda>p. Some day1_text)" post_event "\<lambda>b. []" every_value
        "JObject [(js ''destination'', JString (js ''Rome''))]" True]
    m b
  show ?thesis by simp
qed

section \<open>Comments are stripped inside strings too\<close>

lemma starts_with2_append:
  "a \<noteq> b \<Longrightarrow> starts_with [a, b] (s @ a # b # post) = (starts_with [a, b] s \<or> s = [])"
  by (cases s; cases "tl s") auto

lemma split_at_first2:
  "a \<noteq> b \<Longrightarrow> split_at [a, b] pre = None \<Longrightarrow> split_at [a, b] (pre @ a # b # post) = Some (pre, post)"
proof (induction pre)
  case Nil
  then show ?case by simp
next
  case (Cons c cs)
  from Cons.prems(2) have ns: "\<not> starts_with [a, b] (c # cs)" and n: "split_at [a, b] cs = None"
    by (auto simp del: starts_with.simps split: if_splits option.splits)
  have "\<not> starts_with [a, b] (c # cs @ a # b # post)"
    using starts_with2_append [OF Cons.prems(1), of "c # cs" post] ns
    by (simp del: starts_with.simps)
  with Cons.IH [OF Cons.prems(1) n] show ?case by (simp del: starts_with.simps)
qed

lemma strip_block_comments_at:
  assumes "split_at [SLASH, STAR] pre = None" and "split_at [STAR, SLASH] body = None"
  shows "strip_block_comments (pre @ [SLASH, STAR] @ body @ [STAR, SLASH] @ post)
         = pre @ strip_block_comments post"
  using assms(1)
proof (induction pre)
  case Nil
  have ne: "STAR \<noteq> SLASH" by (simp add: char_defs)
  have "split_at [STAR, SLASH] (body @ STAR # SLASH # post) = Some (body, post)"
    using split_at_first2 [OF ne assms(2)] .
  then show ?case by simp
next
  case (Cons c cs)
  have ne: "SLASH \<noteq> STAR" by (simp add: char_defs)
  from Cons.prems have ns: "\<not> starts_with [SLASH, STAR] (c # cs)" and n: "split_at [SLASH, STAR] cs = None"
    by (auto simp del: starts_with.simps split: if_splits option.splits)
  have "\<not> starts_with [SLASH, STAR] (c # cs @ SLASH # STAR # body @ STAR # SLASH # post)"
    using starts_with2_append [OF ne, of "c # cs" "body @ STAR # SLASH # post"] ns
    by (simp del: starts_with.simps)
  then have "strip_block_comments (c # cs @ SLASH # STAR # body @ STAR # SLASH # post)
             = c # strip_block_comments (cs @ SLASH # STAR # body @ STAR # SLASH # post)"
    by (simp del: starts_with.simps)
  with Cons.IH [OF n] show ?case by simp
qed

lemma rest_of_line_append:
  "rest_of_line (xs @ ys) = (if list_all not_terminator xs then rest_of_line ys else rest_of_line xs @ ys)"
  by (simp add: rest_of_line_def dropWhile_append list_all_iff not_terminator_def)

lemma rest_of_line_at_end: "at_line_end ys \<Longrightarrow> rest_of_line ys = ys"
  by (cases ys) (auto simp: rest_of_line_def at_line_end_def)

lemma rest_of_line_shorter: "length (rest_of_line xs) \<le> length xs"
  by (simp add: rest_of_line_def length_dropWhile_le)

lemma slashes_append:
  "c \<noteq> SLASH \<Longrightarrow> starts_with [SLASH, SLASH] (s @ c # SLASH # SLASH # t) = starts_with [SLASH, SLASH] (s @ [c])"
  by (cases s; cases "tl s") auto

lemma strip_from_comment:
  "c \<noteq> COLON \<and> c \<noteq> BACKSLASH \<and> starts_with [SLASH, SLASH] cs \<Longrightarrow>
   strip_line_comments_from (c # cs) = c # strip_line_comments_from (rest_of_line (drop 2 cs))"
  by (simp del: starts_with.simps)

lemma strip_from_plain:
  "\<not> (c \<noteq> COLON \<and> c \<noteq> BACKSLASH \<and> starts_with [SLASH, SLASH] cs) \<Longrightarrow>
   strip_line_comments_from (c # cs) = c # strip_line_comments_from cs"
  by (auto simp del: starts_with.simps)

lemma strip_line_comments_from_at:
  assumes c: "c \<noteq> COLON" "c \<noteq> BACKSLASH" "c \<noteq> SLASH"
    and line: "list_all not_terminator line"
    and post: "at_line_end post"
  shows "strip_line_comments_from (pre @ c # SLASH # SLASH # line @ post)
         = strip_line_comments_from (pre @ [c]) @ strip_line_comments_from post"
proof (induction pre rule: length_induct)
  case (1 pre)
  let ?tail = "c # SLASH # SLASH # line @ post"
  have nts: "not_terminator SLASH" by (simp add: not_terminator_def is_line_terminator_def char_defs)
  have rl: "rest_of_line (line @ post) = post"
    using line post by (simp add: rest_of_line_append rest_of_line_at_end)
  have tail: "strip_line_comments_from ?tail = c # strip_line_comments_from post"
    using c rl by simp
  have ih: "strip_line_comments_from (p @ ?tail)
            = strip_line_comments_from (p @ [c]) @ strip_line_comments_from post"
    if "length p < length pre" for p
    using 1 that by blast
  show ?case
  proof (cases pre)
    case Nil
    then show ?thesis using tail by simp
  next
    case (Cons p ps)
    show ?thesis
    proof (cases "p \<noteq> COLON \<and> p \<noteq> BACKSLASH \<and> starts_with [SLASH, SLASH] (ps @ [c])")
      case False
      then have "\<not> (p \<noteq> COLON \<and> p \<noteq> BACKSLASH \<and> starts_with [SLASH, SLASH] (ps @ ?tail))"
        using slashes_append [OF c(3), of ps "line @ post"] by (simp del: starts_with.simps)
      then have "strip_line_comments_from (p # ps @ ?tail) = p # strip_line_comments_from (ps @ ?tail)"
        by (rule strip_from_plain)
      moreover from False have "strip_line_comments_from (p # ps @ [c]) = p # strip_line_comments_from (ps @ [c])"
        by (rule strip_from_plain)
      ultimately show ?thesis using Cons ih [of ps] by simp
    next
      case True
      then have m: "p \<noteq> COLON \<and> p \<noteq> BACKSLASH \<and> starts_with [SLASH, SLASH] (ps @ ?tail)"
        using slashes_append [OF c(3), of ps "line @ post"] by (simp del: starts_with.simps)
      from True c(3) obtain ps' where ps: "ps = SLASH # SLASH # ps'"
        by (cases ps; cases "tl ps") auto
      have L: "strip_line_comments_from (pre @ ?tail) = p # strip_line_comments_from (rest_of_line (ps' @ ?tail))"
        using m Cons ps by simp
      have R: "strip_line_comments_from (pre @ [c]) = p # strip_line_comments_from (rest_of_line (ps' @ [c]))"
        using True Cons ps by simp
      show ?thesis
      proof (cases "list_all not_terminator ps'")
        case False
        then have a: "rest_of_line (ps' @ ?tail) = rest_of_line ps' @ ?tail"
          and b: "rest_of_line (ps' @ [c]) = rest_of_line ps' @ [c]"
          by (simp_all add: rest_of_line_append)
        have "length (rest_of_line ps') < length pre"
          using rest_of_line_shorter [of ps'] Cons ps by simp
        from ih [OF this] a b L R show ?thesis by simp
      next
        case all: True
        show ?thesis
        proof (cases "is_line_terminator c")
          case True
          then have a: "rest_of_line (ps' @ ?tail) = ?tail"
            and b: "rest_of_line (ps' @ [c]) = [c]"
            using all by (simp_all add: rest_of_line_append rest_of_line_at_end at_line_end_def)
          with L R tail show ?thesis by simp
        next
          case False
          then have "list_all not_terminator (c # SLASH # SLASH # line)"
            using nts line by (simp add: not_terminator_def)
          then have "rest_of_line ((c # SLASH # SLASH # line) @ post) = post"
            using post by (simp only: rest_of_line_append rest_of_line_at_end if_True)
          then have a: "rest_of_line (ps' @ ?tail) = post"
            using all by (simp add: rest_of_line_append)
          have b: "rest_of_line (ps' @ [c]) = []"
            using all False by (simp add: rest_of_line_append) (simp add: rest_of_line_def)
          from a b L R show ?thesis by simp
        qed
      qed
    qed
  qed
qed

lemma strip_line_comments_at:
  assumes c: "c \<noteq> COLON" "c \<noteq> BACKSLASH" "c \<noteq> SLASH"
    and line: "list_all not_terminator line"
    and post: "at_line_end post"
  shows "strip_line_comments (pre @ c # SLASH # SLASH # line @ post)
         = strip_line_comments (pre @ [c]) @ strip_line_comments_from post"
proof (cases "starts_with [SLASH, SLASH] (pre @ [c])")
  case False
  then have "\<not> starts_with [SLASH, SLASH] (pre @ c # SLASH # SLASH # line @ post)"
    using slashes_append [OF c(3), of pre "line @ post"] by (simp del: starts_with.simps)
  with False show ?thesis
    using strip_line_comments_from_at [OF assms, of pre]
    by (simp add: strip_line_comments_def del: starts_with.simps)
next
  case True
  then have m: "starts_with [SLASH, SLASH] (pre @ c # SLASH # SLASH # line @ post)"
    using slashes_append [OF c(3), of pre "line @ post"] by (simp del: starts_with.simps)
  from True c(3) obtain ps' where ps: "pre = SLASH # SLASH # ps'"
    by (cases pre; cases "tl pre") auto
  let ?tail = "c # SLASH # SLASH # line @ post"
  have nts: "not_terminator SLASH" by (simp add: not_terminator_def is_line_terminator_def char_defs)
  have rl: "rest_of_line (line @ post) = post"
    using line post by (simp add: rest_of_line_append rest_of_line_at_end)
  have tail: "strip_line_comments_from ?tail = c # strip_line_comments_from post"
    using c rl by simp
  have L: "strip_line_comments (pre @ ?tail) = strip_line_comments_from (rest_of_line (ps' @ ?tail))"
    using m ps by (simp add: strip_line_comments_def)
  have R: "strip_line_comments (pre @ [c]) = strip_line_comments_from (rest_of_line (ps' @ [c]))"
    using True ps by (simp add: strip_line_comments_def)
  show ?thesis
  proof (cases "list_all not_terminator ps'")
    case False
    then have a: "rest_of_line (ps' @ ?tail) = rest_of_line ps' @ ?tail"
      and b: "rest_of_line (ps' @ [c]) = rest_of_line ps' @ [c]"
      by (simp_all add: rest_of_line_append)
    from strip_line_comments_from_at [OF assms, of "rest_of_line ps'"] a b L R show ?thesis by simp
  next
    case all: True
    show ?thesis
    proof (cases "is_line_terminator c")
      case True
      then have a: "rest_of_line (ps' @ ?tail) = ?tail"
        and b: "rest_of_line (ps' @ [c]) = [c]"
        using all by (simp_all add: rest_of_line_append rest_of_line_at_end at_line_end_def)
      with L R tail show ?thesis by simp
    next
      case False
      then have "list_all not_terminator (c # SLASH # SLASH # line)"
        using nts line by (simp add: not_terminator_def)
      then have "rest_of_line ((c # SLASH # SLASH # line) @ post) = post"
        using post by (simp only: rest_of_line_append rest_of_line_at_end if_True)
      then have a: "rest_of_line (ps' @ ?tail) = post"
        using all by (simp add: rest_of_line_append)
      have b: "rest_of_line (ps' @ [c]) = []"
        using all False by (simp add: rest_of_line_append) (simp add: rest_of_line_def)
      from a b L R show ?thesis by simp
    qed
  qed
qed

lemma strip_from_head: "\<exists>r. strip_line_comments_from (x # xs) = x # r"
  by simp

lemma rest_of_line_head: "rest_of_line s = x # xs \<Longrightarrow> is_line_terminator x"
  unfolding rest_of_line_def using hd_dropWhile [of "\<lambda>c. \<not> is_line_terminator c" s]
  by (metis list.sel(1) list.distinct(1))

lemma strip_after_comment_head:
  "\<not> starts_with [SLASH] (strip_line_comments_from (rest_of_line s))"
proof (cases "rest_of_line s")
  case Nil
  then show ?thesis by simp
next
  case (Cons x xs)
  then have "is_line_terminator x" by (rule rest_of_line_head)
  then have "x \<noteq> SLASH" by (auto simp: is_line_terminator_def char_defs)
  with Cons show ?thesis by simp
qed

lemma starts_with_slashes_strip:
  assumes "starts_with [SLASH, SLASH] (strip_line_comments_from s)"
  shows "starts_with [SLASH, SLASH] s"
proof (cases s)
  case Nil
  with assms show ?thesis by simp
next
  case (Cons x xs)
  show ?thesis
  proof (cases "x \<noteq> COLON \<and> x \<noteq> BACKSLASH \<and> starts_with [SLASH, SLASH] xs")
    case True
    then have "strip_line_comments_from s = x # strip_line_comments_from (rest_of_line (drop 2 xs))"
      using Cons by (simp del: starts_with.simps)
    with assms strip_after_comment_head [of "drop 2 xs"] show ?thesis
      by (cases "strip_line_comments_from (rest_of_line (drop 2 xs))") auto
  next
    case False
    then have e: "strip_line_comments_from s = x # strip_line_comments_from xs"
      using Cons strip_from_plain by blast
    show ?thesis
    proof (cases xs)
      case Nil
      with e assms show ?thesis by simp
    next
      case c2: (Cons y ys)
      obtain r where "strip_line_comments_from (y # ys) = y # r"
        using strip_from_head by blast
      with e assms c2 Cons show ?thesis by simp
    qed
  qed
qed

lemma no_unprotected_from: "\<not> unprotected_comment (strip_line_comments_from s)"
proof (induction s rule: strip_line_comments_from.induct)
  case 1
  then show ?case by simp
next
  case (2 c cs)
  show ?case
  proof (cases "c \<noteq> COLON \<and> c \<noteq> BACKSLASH \<and> starts_with [SLASH, SLASH] cs")
    case True
    then have e: "strip_line_comments_from (c # cs) = c # strip_line_comments_from (rest_of_line (drop 2 cs))"
      by (simp del: starts_with.simps)
    have "\<not> starts_with [SLASH, SLASH] (strip_line_comments_from (rest_of_line (drop 2 cs)))"
      using strip_after_comment_head [of "drop 2 cs"]
      by (cases "strip_line_comments_from (rest_of_line (drop 2 cs))") auto
    with True 2(1) e show ?thesis by (simp del: starts_with.simps)
  next
    case False
    then have e: "strip_line_comments_from (c # cs) = c # strip_line_comments_from cs"
      by (rule strip_from_plain)
    from False have "\<not> (c \<noteq> COLON \<and> c \<noteq> BACKSLASH \<and> starts_with [SLASH, SLASH] (strip_line_comments_from cs))"
      using starts_with_slashes_strip [of cs] by blast
    with False 2(2) e show ?thesis by (auto simp del: starts_with.simps strip_line_comments_from.simps)
  qed
qed

lemma no_unprotected:
  "\<not> starts_with [SLASH, SLASH] (strip_line_comments s) \<and> \<not> unprotected_comment (strip_line_comments s)"
proof (cases "starts_with [SLASH, SLASH] s")
  case True
  have "\<not> starts_with [SLASH, SLASH] (strip_line_comments_from (rest_of_line (drop 2 s)))"
    using strip_after_comment_head [of "drop 2 s"]
    by (cases "strip_line_comments_from (rest_of_line (drop 2 s))") auto
  with True show ?thesis by (simp add: strip_line_comments_def no_unprotected_from)
next
  case False
  then show ?thesis
    using starts_with_slashes_strip [of s] by (auto simp: strip_line_comments_def no_unprotected_from)
qed

lemma url_parse: "JSON_parse url_text = Some url_value"
  by (simp add: url_text_def url_value_def parse_defs)

lemma url_sanitize: "sanitizeJsonString url_text = url_sanitized"
  by (simp add: url_text_def url_sanitized_def sanitize_defs)

lemma url_sanitized_parse: "JSON_parse url_sanitized = None"
  by (simp add: url_sanitized_def parse_defs)

lemma sanitize_block_comment:
  assumes nf: "split_at FENCE (pre @ [SLASH, STAR] @ body @ [STAR, SLASH] @ post) = None"
    and np: "split_at [SLASH, STAR] pre = None"
    and nb: "split_at [STAR, SLASH] body = None"
  shows "sanitizeJsonString (pre @ [SLASH, STAR] @ body @ [STAR, SLASH] @ post)
         = trim (remove_trailing_commas (strip_line_comments
             (map straighten_quote (trim_start pre)
              @ strip_block_comments (map straighten_quote (trim_end post)))))"
proof -
  let ?s = "pre @ [SLASH, STAR] @ body @ [STAR, SLASH] @ post"
  let ?p = "map straighten_quote (trim_start pre)"
  let ?b = "map straighten_quote body"
  let ?q = "map straighten_quote (trim_end post)"
  have ns: "\<not> is_space SLASH" by (simp add: is_space_def char_defs)
  have sl: "(straighten_quote x = SLASH) = (x = SLASH)" for x
    by (rule straighten_eq) (simp_all add: char_defs)
  have st: "(straighten_quote x = STAR) = (x = STAR)" for x
    by (rule straighten_eq) (simp_all add: char_defs)
  have fx: "straighten_quote SLASH = SLASH" "straighten_quote STAR = STAR"
    using sl st by simp_all
  have "trim_start ?s = trim_start pre @ SLASH # STAR # body @ [STAR, SLASH] @ post"
    using trim_start_before [OF ns, of pre "STAR # body @ [STAR, SLASH] @ post"] by simp
  moreover have "trim_end (trim_start pre @ SLASH # STAR # body @ [STAR, SLASH] @ post)
        = trim_start pre @ SLASH # STAR # body @ [STAR] @ SLASH # trim_end post"
    using trim_end_after [OF ns, of "trim_start pre @ SLASH # STAR # body @ [STAR]" post] by simp
  ultimately have t: "trim ?s = trim_start pre @ [SLASH, STAR] @ body @ [STAR, SLASH] @ trim_end post"
    by (simp add: trim_def)
  have nft: "split_at FENCE (trim ?s) = None" using nf by (rule no_fence_trim)
  have f1: "replace_fence_label (trim ?s) = trim ?s" using nft by (rule no_fence_label)
  have f2: "remove_fences (trim ?s) = trim ?s" using nft by (rule no_fence_remove)
  have m: "map straighten_quote (trim ?s) = ?p @ [SLASH, STAR] @ ?b @ [STAR, SLASH] @ ?q"
    by (subst t) (simp add: fx)
  obtain ws where "pre = ws @ trim_start pre" using trim_start_suffix by blast
  with np have "split_at [SLASH, STAR] (trim_start pre) = None"
    using split_at_suffix [of "[SLASH, STAR]" ws "trim_start pre"] by simp
  then have p: "split_at [SLASH, STAR] ?p = None"
    using split_at2_map [of straighten_quote SLASH STAR "trim_start pre"] sl st by simp
  have b: "split_at [STAR, SLASH] ?b = None"
    using nb split_at2_map [of straighten_quote STAR SLASH body] sl st by simp
  have sb: "strip_block_comments (?p @ [SLASH, STAR] @ ?b @ [STAR, SLASH] @ ?q)
            = ?p @ strip_block_comments ?q"
    using p b by (rule strip_block_comments_at)
  have ne: "?s \<noteq> []" by simp
  have "sanitizeJsonString ?s
        = trim (remove_trailing_commas (strip_line_comments (strip_block_comments
            (replace_curly_single (replace_curly_double
               (remove_fences (replace_fence_label (trim ?s))))))))"
    using ne by (simp only: sanitizeJsonString_def if_False)
  also have "\<dots> = trim (remove_trailing_commas (strip_line_comments (strip_block_comments
            (?p @ [SLASH, STAR] @ ?b @ [STAR, SLASH] @ ?q))))"
    by (simp only: f1 f2 replace_curly_straighten m)
  also have "\<dots> = trim (remove_trailing_commas (strip_line_comments (?p @ strip_block_comments ?q)))"
    by (simp only: sb)
  finally show ?thesis .
qed

lemma unprotected_suffix: "unprotected_comment ys \<Longrightarrow> unprotected_comment (xs @ ys)"
  by (induction xs) (auto simp del: starts_with.simps)

lemma unprotected_prefix: "unprotected_comment xs \<Longrightarrow> unprotected_comment (xs @ ys)"
proof (induction xs)
  case Nil
  then show ?case by simp
next
  case (Cons c cs)
  then show ?case
    using starts_with_append [of "[SLASH, SLASH]" cs ys] by (auto simp del: starts_with.simps)
qed

lemma unprotected_after:
  "xs \<noteq> [] \<Longrightarrow> last xs \<noteq> COLON \<Longrightarrow> last xs \<noteq> BACKSLASH \<Longrightarrow> starts_with [SLASH, SLASH] ys
   \<Longrightarrow> unprotected_comment (xs @ ys)"
proof (induction xs)
  case Nil
  then show ?case by simp
next
  case (Cons c cs)
  show ?case
  proof (cases "cs = []")
    case True
    with Cons.prems show ?thesis by (simp del: starts_with.simps)
  next
    case False
    with Cons show ?thesis by (simp del: starts_with.simps)
  qed
qed

lemma remove_trailing_commas_head:
  "remove_trailing_commas s = x # xs \<Longrightarrow> x \<noteq> RBRACE \<Longrightarrow> x \<noteq> RBRACKET
   \<Longrightarrow> \<exists>cs. s = x # cs \<and> (x \<noteq> COMMA \<longrightarrow> xs = remove_trailing_commas cs)"
  by (cases s) (auto split: if_splits list.splits)

lemma remove_trailing_commas_slashes:
  assumes "starts_with [SLASH, SLASH] (remove_trailing_commas s)"
  shows "starts_with [SLASH, SLASH] s"
proof -
  have c: "SLASH \<noteq> RBRACE" "SLASH \<noteq> RBRACKET" "SLASH \<noteq> COMMA" by (simp_all add: char_defs)
  from assms obtain r where r: "remove_trailing_commas s = SLASH # SLASH # r"
    by (cases "remove_trailing_commas s"; cases "tl (remove_trailing_commas s)") auto
  from remove_trailing_commas_head [OF r c(1) c(2)] c(3)
  obtain cs where s: "s = SLASH # cs" and t: "SLASH # r = remove_trailing_commas cs" by auto
  from remove_trailing_commas_head [OF t [symmetric] c(1) c(2)]
  obtain ds where "cs = SLASH # ds" by auto
  with s show ?thesis by simp
qed

lemma remove_trailing_commas_unprotected:
  "unprotected_comment (remove_trailing_commas s) \<Longrightarrow> unprotected_comment s"
proof (induction s rule: length_induct)
  case (1 s)
  show ?case
  proof (cases s)
    case Nil
    with "1.prems" show ?thesis by simp
  next
    case (Cons c cs)
    have ih: "unprotected_comment p" if "length p < length s" "unprotected_comment (remove_trailing_commas p)" for p
      using 1 that by blast
    show ?thesis
    proof (cases "c = COMMA \<and> (\<exists>b rest. trim_start cs = b # rest \<and> (b = RBRACE \<or> b = RBRACKET))")
      case True
      then obtain b rest where tr: "trim_start cs = b # rest" and b: "b = RBRACE \<or> b = RBRACKET"
        by blast
      have r: "remove_trailing_commas s = b # remove_trailing_commas rest"
        using True tr b Cons by auto
      have len: "length rest < length s" using trim_start_shorter [OF tr] Cons by simp
      have bc: "b \<noteq> COLON" "b \<noteq> BACKSLASH" using b by (auto simp: char_defs)
      from "1.prems" r have "starts_with [SLASH, SLASH] (remove_trailing_commas rest)
          \<or> unprotected_comment (remove_trailing_commas rest)"
        by (auto simp del: starts_with.simps)
      then have "unprotected_comment (b # rest)"
      proof
        assume "starts_with [SLASH, SLASH] (remove_trailing_commas rest)"
        then have "starts_with [SLASH, SLASH] rest" by (rule remove_trailing_commas_slashes)
        with bc show ?thesis by (simp del: starts_with.simps)
      next
        assume "unprotected_comment (remove_trailing_commas rest)"
        from ih [OF len this] show ?thesis by simp
      qed
      moreover obtain ws where "cs = ws @ b # rest" using trim_start_suffix [of cs] tr by auto
      ultimately have "unprotected_comment cs" using unprotected_suffix by simp
      with Cons show ?thesis by simp
    next
      case False
      then have r: "remove_trailing_commas s = c # remove_trailing_commas cs"
        using Cons by (auto split: list.splits)
      have len: "length cs < length s" using Cons by simp
      from "1.prems" r have "(c \<noteq> COLON \<and> c \<noteq> BACKSLASH \<and> starts_with [SLASH, SLASH] (remove_trailing_commas cs))
          \<or> unprotected_comment (remove_trailing_commas cs)"
        by (auto simp del: starts_with.simps)
      then show ?thesis
      proof
        assume a: "c \<noteq> COLON \<and> c \<noteq> BACKSLASH \<and> starts_with [SLASH, SLASH] (remove_trailing_commas cs)"
        then have "starts_with [SLASH, SLASH] cs" using remove_trailing_commas_slashes by blast
        with a Cons show ?thesis by (simp del: starts_with.simps)
      next
        assume "unprotected_comment (remove_trailing_commas cs)"
        from ih [OF len this] Cons show ?thesis by simp
      qed
    qed
  qed
qed

lemma trim_no_comment:
  assumes a: "\<not> starts_with [SLASH, SLASH] s" and b: "\<not> unprotected_comment s"
  shows "\<not> starts_with [SLASH, SLASH] (trim s) \<and> \<not> unprotected_comment (trim s)"
proof -
  obtain ws where ws: "s = ws @ trim_start s" "list_all is_space ws"
    using trim_start_suffix by blast
  obtain vs where vs: "trim_start s = trim s @ vs"
    using trim_end_prefix [of "trim_start s"] unfolding trim_def by blast
  have u1: "\<not> unprotected_comment (trim_start s)"
    using b ws(1) unprotected_suffix [of "trim_start s" ws] by auto
  have u2: "\<not> unprotected_comment (trim s)"
    using u1 vs unprotected_prefix [of "trim s" vs] by auto
  have s1: "\<not> starts_with [SLASH, SLASH] (trim_start s)"
  proof (cases "ws = []")
    case True
    with ws a show ?thesis by simp
  next
    case False
    then have "is_space (last ws)" using ws(2) by (simp add: list_all_iff)
    then have l: "last ws \<noteq> COLON" "last ws \<noteq> BACKSLASH" by (auto simp: is_space_def char_defs)
    show ?thesis
    proof
      assume "starts_with [SLASH, SLASH] (trim_start s)"
      from unprotected_after [OF False l this] have "unprotected_comment (ws @ trim_start s)" .
      then have "unprotected_comment s" by (simp only: ws(1) [symmetric])
      with b show False by simp
    qed
  qed
  have "\<not> starts_with [SLASH, SLASH] (trim s)"
    using s1 vs starts_with_append [of "[SLASH, SLASH]" "trim s" vs] by auto
  with u2 show ?thesis by simp
qed

lemma sanitize_no_comment:
  "\<not> starts_with [SLASH, SLASH] (sanitizeJsonString s) \<and> \<not> unprotected_comment (sanitizeJsonString s)"
proof (cases "s = []")
  case True
  then show ?thesis by (simp add: sanitizeJsonString_def)
next
  case False
  let ?w = "strip_line_comments (strip_block_comments
             (replace_curly_single (replace_curly_double
               (remove_fences (replace_fence_label (trim s))))))"
  have w: "\<not> starts_with [SLASH, SLASH] ?w \<and> \<not> unprotected_comment ?w" by (rule no_unprotected)
  have "\<not> starts_with [SLASH, SLASH] (remove_trailing_commas ?w)"
    using w remove_trailing_commas_slashes by blast
  moreover have "\<not> unprotected_comment (remove_trailing_commas ?w)"
    using w remove_trailing_commas_unprotected by blast
  ultimately have "\<not> starts_with [SLASH, SLASH] (trim (remove_trailing_commas ?w))
      \<and> \<not> unprotected_comment (trim (remove_trailing_commas ?w))"
    by (rule trim_no_comment)
  with False show ?thesis by (simp only: sanitizeJsonString_def if_False simp_thms)
qed

lemma star_parse:
  \<open>JSON_parse star_text = Some (JObject [(js ''tip'', JString (js ''rated /* 5 stars */ by locals''))])\<close>
  by (simp add: star_text_def parse_defs)

lemma star_sanitize: \<open>sanitizeJsonString star_text = js ''{"tip":"rated  by locals"}''\<close>
  by (simp add: star_text_def sanitize_defs)

lemma slashes_sanitize: \<open>sanitizeJsonString slashes_text = js ''{"tip":"walk \<newline>"places":[]}''\<close>
  by (simp add: slashes_text_def sanitize_defs)

lemma block_step:
  "split_at [SLASH, STAR] pre = None \<and> split_at [STAR, SLASH] body = None \<longrightarrow>
   strip_block_comments (pre @ [SLASH, STAR] @ body @ [STAR, SLASH] @ post)
     = pre @ strip_block_comments post"
  using strip_block_comments_at [of pre body post] by blast

lemma block_sanitize:
  "split_at FENCE (pre @ [SLASH, STAR] @ body @ [STAR, SLASH] @ post) = None
     \<and> split_at [SLASH, STAR] pre = None \<and> split_at [STAR, SLASH] body = None \<longrightarrow>
   sanitizeJsonString (pre @ [SLASH, STAR] @ body @ [STAR, SLASH] @ post)
     = trim (remove_trailing_commas (strip_line_comments
         (map straighten_quote (trim_start pre)
          @ strip_block_comments (map straighten_quote (trim_end post)))))"
  using sanitize_block_comment [of pre body post] by blast

lemma line_step:
  "c \<noteq> COLON \<and> c \<noteq> BACKSLASH \<and> c \<noteq> SLASH \<and> list_all not_terminator line \<and> at_line_end rest \<longrightarrow>
   strip_line_comments (before @ c # SLASH # SLASH # line @ rest)
     = strip_line_comments (before @ [c]) @ strip_line_comments_from rest"
  using strip_line_comments_at [of c line rest before] by blast

text \<open>
  Claim C10. Neither replacement looks at quotes: they act on the whole candidate, in a
  string as anywhere else. The leftmost \<open>/*\<close> with a \<open>*/\<close> after it is deleted with all
  that lies between, and the replacement goes on after it: so it is in the replacement
  alone, and in the sanitizer on every candidate without a fence, whose result is built
  from the text before the comment and the text after it. A \<open>//\<close> after a character
  other than the colon, the backslash and the slash is deleted with the rest of its line,
  the text before it and the text after the line being treated on their own; and in the
  result, of the replacement and of the sanitizer on every candidate, no \<open>//\<close> is left at
  the start or after a character other than the colon and the backslash. So valid JSON is
  not left as it is: the sanitizer takes the comment out of the string
  \<open>rated /* 5 stars */ by locals\<close>, cuts the line of the string \<open>walk // or take the tram\<close>
  at the \<open>//\<close>, and of the object whose string is the URL \<open>//cdn.example.com/a.png\<close> it
  keeps the text up to the opening quote of the string, which \<open>JSON.parse\<close> rejects.
\<close>

theorem c10_comments_in_strings:
  \<open>(split_at [SLASH, STAR] pre = None \<and> split_at [STAR, SLASH] body = None \<longrightarrow>
      strip_block_comments (pre @ [SLASH, STAR] @ body @ [STAR, SLASH] @ post)
        = pre @ strip_block_comments post)
   \<and> (split_at FENCE (pre @ [SLASH, STAR] @ body @ [STAR, SLASH] @ post) = None
        \<and> split_at [SLASH, STAR] pre = None \<and> split_at [STAR, SLASH] body = None \<longrightarrow>
      sanitizeJsonString (pre @ [SLASH, STAR] @ body @ [STAR, SLASH] @ post)
        = trim (remove_trailing_commas (strip_line_comments
            (map straighten_quote (trim_start pre)
             @ strip_block_comments (map straighten_quote (trim_end post))))))
   \<and> (c \<noteq> COLON \<and> c \<noteq> BACKSLASH \<and> c \<noteq> SLASH \<and> list_all not_terminator line \<and> at_line_end rest \<longrightarrow>
        strip_line_comments (before @ c # SLASH # SLASH # line @ rest)
          = strip_line_comments (before @ [c]) @ strip_line_comments_from rest)
   \<and> \<not> starts_with [SLASH, SLASH] (strip_line_comments s)
   \<and> \<not> unprotected_comment (strip_line_comments s)
   \<and> \<not> starts_with [SLASH, SLASH] (sanitizeJsonString s)
   \<and> \<not> unprotected_comment (sanitizeJsonString s)
   \<and> JSON_parse star_text
       = Some (JObject [(js ''tip'', JString (js ''rated /* 5 stars */ by locals''))])
   \<and> sanitizeJsonString star_text = js ''{"tip":"rated  by locals"}''
   \<and> sanitizeJsonString slashes_text = js ''{"tip":"walk \<newline>"places":[]}''
   \<and> JSON_parse url_text = Some url_value
   \<and> sanitizeJsonString url_text = url_sanitized
   \<and> JSON_parse url_sanitized = None\<close>
  by (intro conjI)
     (rule block_step, rule block_sanitize, rule line_step,
      rule no_unprotected [THEN conjunct1], rule no_unprotected [THEN conjunct2],
      rule sanitize_no_comment [THEN conjunct1], rule sanitize_no_comment [THEN conjunct2],
      rule star_parse, rule star_sanitize, rule slashes_sanitize, rule url_parse,
      rule url_sanitize, rule url_sanitized_parse)

theorem c10_comments_in_strings_witness:
  \<open>strip_block_comments star_text = js ''{"tip":"rated  by locals"}''
   \<and> split_at FENCE star_text = None
   \<and> sanitizeJsonString (js ''{"tip":"rated '' @ [SLASH, STAR] @ js '' 5 stars '' @ [STAR, SLASH] @ js '' by locals"}'')
       = js ''{"tip":"rated  by locals"}''
   \<and> strip_line_comments slashes_text = js ''{"tip":"walk \<newline>"places":[]}''
   \<and> JSON_parse star_text = Some (JObject [(js ''tip'', JString (js ''rated /* 5 stars */ by locals''))])\<close>
proof -
  note t = c10_comments_in_strings
    [of \<open>js ''{"tip":"rated ''\<close> \<open>js '' 5 stars ''\<close> \<open>js '' by locals"}''\<close> 32
        \<open>js '' or take the tram",''\<close> \<open>js ''\<newline>"places":[]}''\<close> \<open>js ''{"tip":"walk''\<close> "[]"]
  have st: \<open>star_text = js ''{"tip":"rated '' @ [SLASH, STAR] @ js '' 5 stars '' @ [STAR, SLASH] @ js '' by locals"}''\<close>
    by (simp add: star_text_def js_def char_defs)
  have b0: \<open>split_at FENCE (js ''{"tip":"rated '' @ [SLASH, STAR] @ js '' 5 stars '' @ [STAR, SLASH] @ js '' by locals"}'') = None\<close>
    by (simp add: js_def char_defs)
  have b1: \<open>split_at [SLASH, STAR] (js ''{"tip":"rated '') = None\<close>
    by (simp add: js_def char_defs)
  have b2: \<open>split_at [STAR, SLASH] (js '' 5 stars '') = None\<close>
    by (simp add: js_def char_defs)
  have l1: "32 \<noteq> COLON \<and> 32 \<noteq> BACKSLASH \<and> 32 \<noteq> SLASH"
    by (simp add: char_defs)
  have l2: \<open>list_all not_terminator (js '' or take the tram",'')\<close>
    by (simp add: js_def not_terminator_def is_line_terminator_def)
  have l3: \<open>at_line_end (js ''\<newline>"places":[]}'')\<close>
    by (simp add: js_def at_line_end_def is_line_terminator_def)
  have e1: \<open>strip_block_comments (js '' by locals"}'') = js '' by locals"}''\<close>
    by (simp add: js_def char_defs)
  have e2: \<open>strip_line_comments (js ''{"tip":"walk'' @ [32]) = js ''{"tip":"walk ''\<close>
    by (simp add: js_def char_defs strip_line_comments_def)
  have e3: \<open>strip_line_comments_from (js ''\<newline>"places":[]}'') = js ''\<newline>"places":[]}''\<close>
    by (simp add: js_def char_defs)
  have e4: \<open>trim (remove_trailing_commas (strip_line_comments
              (map straighten_quote (trim_start (js ''{"tip":"rated ''))
               @ strip_block_comments (map straighten_quote (trim_end (js '' by locals"}''))))))
            = js ''{"tip":"rated  by locals"}''\<close>
    by (simp add: sanitize_defs straighten_quote_def)
  from t have p: \<open>JSON_parse star_text = Some (JObject [(js ''tip'', JString (js ''rated /* 5 stars */ by locals''))])\<close>
    by blast
  from t b1 b2
  have \<open>strip_block_comments (js ''{"tip":"rated '' @ [SLASH, STAR] @ js '' 5 stars '' @ [STAR, SLASH] @ js '' by locals"}'')
          = js ''{"tip":"rated '' @ strip_block_comments (js '' by locals"}'')\<close>
    by blast
  with e1 have c1: \<open>strip_block_comments star_text = js ''{"tip":"rated  by locals"}''\<close>
    by (simp add: st) (simp add: js_def)
  from t b0 b1 b2
  have \<open>sanitizeJsonString (js ''{"tip":"rated '' @ [SLASH, STAR] @ js '' 5 stars '' @ [STAR, SLASH] @ js '' by locals"}'')
          = trim (remove_trailing_commas (strip_line_comments
              (map straighten_quote (trim_start (js ''{"tip":"rated ''))
               @ strip_block_comments (map straighten_quote (trim_end (js '' by locals"}''))))))\<close>
    by blast
  then have c2: \<open>sanitizeJsonString (js ''{"tip":"rated '' @ [SLASH, STAR] @ js '' 5 stars '' @ [STAR, SLASH] @ js '' by locals"}'')
       = js ''{"tip":"rated  by locals"}''\<close>
    by (simp only: e4)
  from t l1 l2 l3
  have \<open>strip_line_comments (js ''{"tip":"walk'' @ 32 # SLASH # SLASH # js '' or take the tram",'' @ js ''\<newline>"places":[]}'')
          = strip_line_comments (js ''{"tip":"walk'' @ [32]) @ strip_line_comments_from (js ''\<newline>"places":[]}'')\<close>
    by blast
  with e2 e3 have c3: \<open>strip_line_comments slashes_text = js ''{"tip":"walk \<newline>"places":[]}''\<close>
    by (simp add: slashes_text_def js_def char_defs)
  have c0: "split_at FENCE star_text = None" using b0 by (simp only: st [symmetric])
  from c1 c0 c2 c3 p show ?thesis by blast
qed
end
